theory Spec2Isabelle
  imports Main "HOL-Library.Char_ord" "HOL-Library.List_Lexorder" "HOL-Library.Sublist"
    "HOL-Library.Word"
begin

section \<open>Strings, tokens and containers of cfg\_parser.cpp\<close>

text \<open>
  A \<open>std::string\<close> is a list of bytes. The epsilon token of the source is the UTF-8
  encoding of the Greek letter (two bytes), the end marker is the dollar sign, and fresh
  names are built with the apostrophe (byte 0x27).
\<close>

definition epsilon :: string where
  "epsilon = [CHR 0xCE, CHR 0xB5]"

definition endMarker :: string where
  "endMarker = ''$''"

definition apostrophe :: string where
  "apostrophe = [CHR 0x27]"

text \<open>
  A \<open>std::map<string, V>\<close> is an association list kept in ascending key order (bytewise
  lexicographic, as \<open>std::string\<close> compares), so that iterating the list is iterating the
  map. \<open>m_put\<close> is the assignment \<open>m[k] = v\<close>; \<open>m_get\<close> reads \<open>m[k]\<close>, a missing
  key reading as the default-constructed (empty) value; \<open>m_has\<close> is \<open>m.find(k) != m.end()\<close>.
\<close>

type_synonym 'v smap = "(string \<times> 'v) list"

fun m_put :: "string \<Rightarrow> 'v \<Rightarrow> 'v smap \<Rightarrow> 'v smap" where
  "m_put k v [] = [(k, v)]"
| "m_put k v ((k', v') # m) =
     (if k = k' then (k, v) # m
      else if k < k' then (k, v) # (k', v') # m
      else (k', v') # m_put k v m)"

definition m_get :: "'v list smap \<Rightarrow> string \<Rightarrow> 'v list" where
  "m_get m k = (case map_of m k of None \<Rightarrow> [] | Some v \<Rightarrow> v)"

definition m_has :: "'v smap \<Rightarrow> string \<Rightarrow> bool" where
  "m_has m k = (k \<in> set (map fst m))"

text \<open>
  A \<open>std::set<string>\<close> is an ascending list without duplicates. \<open>s_insert\<close> is
  \<open>insert\<close>: the new set and the \<open>.second\<close> of the returned pair (whether the element
  was new).
\<close>

type_synonym sset = "string list"

definition s_insert :: "string \<Rightarrow> sset \<Rightarrow> sset \<times> bool" where
  "s_insert x s = (if x \<in> set s then (s, False) else (insort x s, True))"

type_synonym grammar = "string list smap"

subsection \<open>split\<close>

text \<open>
  \<open>getlines d s\<close> is the sequence of strings that repeated \<open>getline(iss, token, d)\<close>
  reads from \<open>s\<close>: the pieces between delimiters, with no last piece after a trailing
  delimiter (the read at end of input fails).
\<close>

fun getlines :: "char \<Rightarrow> string \<Rightarrow> string list" where
  "getlines d [] = []"
| "getlines d (c # cs) =
     (if c = d then [] # getlines d cs
      else (case getlines d cs of [] \<Rightarrow> [[c]] | p # ps \<Rightarrow> (c # p) # ps))"

definition is_ws :: "char \<Rightarrow> bool" where
  "is_ws c = (c = CHR '' '' \<or> c = CHR 0x09)"

text \<open>The substring from the first to the last character that is neither space nor tab.\<close>

definition trim :: "string \<Rightarrow> string" where
  "trim t = rev (dropWhile is_ws (rev (dropWhile is_ws t)))"

definition split :: "string \<Rightarrow> char \<Rightarrow> string list" where
  "split s delimiter =
     concat (map (\<lambda>token. if \<exists>c \<in> set token. \<not> is_ws c then [trim token] else [])
       (getlines delimiter s))"

subsection \<open>std::to\_string on int\<close>

fun digits :: "nat \<Rightarrow> string" where
  "digits n = (if n < 10 then [char_of (48 + n)] else digits (n div 10) @ [char_of (48 + n mod 10)])"

declare digits.simps [simp del]

definition to_string :: "int \<Rightarrow> string" where
  "to_string i = (if i < 0 then ''-'' @ digits (nat (- i)) else digits (nat i))"

section \<open>Left factoring\<close>

fun commonPrefix :: "string list \<Rightarrow> string list \<Rightarrow> string list" where
  "commonPrefix (x # a) (y # b) = (if x = y then x # commonPrefix a b else [])"
| "commonPrefix _ _ = []"

text \<open>
  The reduction loop of \<open>leftFactor\<close>: \<open>common = commonPrefix(common, tokenized[i])\<close>
  for \<open>i = 1, 2, ...\<close>, leaving the loop as soon as \<open>common\<close> is empty.
\<close>

fun commonAll :: "string list \<Rightarrow> string list list \<Rightarrow> string list" where
  "commonAll common [] = common"
| "commonAll common (t # ts) =
     (let common' = commonPrefix common t in if common' = [] then [] else commonAll common' ts)"

text \<open>Writing tokens to a string stream, each followed by one space.\<close>

definition spaced :: "string list \<Rightarrow> string" where
  "spaced ts = concat (map (\<lambda>t. t @ '' '') ts)"

text \<open>
  \<open>leftFactor nonTerminal prods newProds newNTcount\<close> returns the updated \<open>newProds\<close> and
  \<open>newNTcount\<close> (both are reference parameters of the source). Note that the factored
  production is appended (\<open>push_back\<close>) to whatever \<open>newProds[nonTerminal]\<close> holds, while
  the other entries are assigned. The counter is an \<open>int\<close> of the source, a signed
  word of 32 bits: \<open>newNTcount > 1\<close> is the signed comparison, \<open>std::to_string\<close> prints
  the signed value, and \<open>newNTcount++\<close> at \<open>INT_MAX\<close> wraps around to \<open>INT_MIN\<close>
  (what the compiled program does on two's-complement hardware; the language leaves the
  overflow undefined).
\<close>

definition leftFactor :: "string \<Rightarrow> string list \<Rightarrow> grammar \<Rightarrow> 32 word \<Rightarrow> grammar \<times> 32 word" where
  "leftFactor nonTerminal prods newProds newNTcount =
     (if length prods < 2 then (m_put nonTerminal prods newProds, newNTcount)
      else
        let tokenized = map (\<lambda>prd. split prd CHR '' '') prods;
            common = commonAll (hd tokenized) (tl tokenized)
        in if common \<noteq> [] then
             let newNT = nonTerminal @ apostrophe @
                           (if 1 <s newNTcount then to_string (sint newNTcount) else []);
                 factoredProd = spaced common @ newNT;
                 newProds1 = m_put nonTerminal (m_get newProds nonTerminal @ [factoredProd]) newProds;
                 newNTProds = map (\<lambda>tokens.
                     let suffix = drop (length common) tokens
                     in if suffix = [] then epsilon else spaced suffix) tokenized
             in (m_put newNT newNTProds newProds1, newNTcount + 1)
           else (m_put nonTerminal prods newProds, newNTcount))"

text \<open>Phase 1 of \<open>main\<close>: one pass over the raw grammar, the counter starting at 1.\<close>

definition factorStep :: "string \<times> string list \<Rightarrow> grammar \<times> 32 word \<Rightarrow> grammar \<times> 32 word" where
  "factorStep rule st = leftFactor (fst rule) (snd rule) (fst st) (snd st)"

definition factorFrom :: "grammar \<Rightarrow> grammar \<times> 32 word \<Rightarrow> grammar \<times> 32 word" where
  "factorFrom g st = fold factorStep g st"

definition factoredGrammar :: "grammar \<Rightarrow> grammar" where
  "factoredGrammar g = fst (factorFrom g ([], 1))"

section \<open>Removal of immediate left recursion\<close>

text \<open>
  The partition loop of \<open>leftRecursion\<close>: the pair of \<open>recursiveProds\<close> (the leading
  non-terminal removed, the remaining tokens each followed by a space) and
  \<open>nonRecursiveProds\<close>.
\<close>

fun partitionProds :: "string \<Rightarrow> string list \<Rightarrow> string list \<times> string list" where
  "partitionProds nonTerminal [] = ([], [])"
| "partitionProds nonTerminal (prd # prods) =
     (let tokens = split prd CHR '' '';
          (recursiveProds, nonRecursiveProds) = partitionProds nonTerminal prods
      in if tokens \<noteq> [] \<and> hd tokens = nonTerminal
         then (spaced (tl tokens) # recursiveProds, nonRecursiveProds)
         else (recursiveProds, prd # nonRecursiveProds))"

definition leftRecursion :: "string \<Rightarrow> string list \<Rightarrow> grammar \<Rightarrow> grammar" where
  "leftRecursion nonTerminal prods newGrammar =
     (let (recursiveProds, nonRecursiveProds) = partitionProds nonTerminal prods
      in if recursiveProds = [] then m_put nonTerminal prods newGrammar
         else
           let newNT = nonTerminal @ apostrophe;
               newNonRecursive = map (\<lambda>beta. beta @ '' '' @ newNT) nonRecursiveProds;
               newGrammar1 = m_put nonTerminal newNonRecursive newGrammar;
               newRecursive = map (\<lambda>alpha. alpha @ '' '' @ newNT) recursiveProds @ [epsilon]
           in m_put newNT newRecursive newGrammar1)"

text \<open>Phase 2 of \<open>main\<close>.\<close>

definition finalGrammar :: "grammar \<Rightarrow> grammar" where
  "finalGrammar g =
     fold (\<lambda>rule newGrammar. leftRecursion (fst rule) (snd rule) newGrammar) (factoredGrammar g) []"

section \<open>FIRST sets\<close>

text \<open>
  \<open>if (m[X].insert(x).second) changed = true;\<close> on a pair of a map of sets and the
  \<open>changed\<close> flag. (\<open>operator[]\<close> creates a missing entry; in the solvers every key that
  is written was created at initialisation.)
\<close>

definition s_add :: "string \<Rightarrow> string \<Rightarrow> sset smap \<times> bool \<Rightarrow> sset smap \<times> bool" where
  "s_add X x st =
     (let (s, fresh) = s_insert x (m_get (fst st) X)
      in (m_put X s (fst st), snd st \<or> fresh))"

text \<open>Inserting every member of a set other than epsilon.\<close>

definition s_add_noeps :: "string \<Rightarrow> sset \<Rightarrow> sset smap \<times> bool \<Rightarrow> sset smap \<times> bool" where
  "s_add_noeps X syms st = fold (\<lambda>sym st. if sym \<noteq> epsilon then s_add X sym st else st) syms st"

text \<open>
  The scan of one production's tokens in \<open>firstSet\<close>. Reaching the end of the tokens is
  leaving the loop with \<open>addEpsilon\<close> still true; every \<open>break\<close> sets it to false.
\<close>

fun firstScan :: "grammar \<Rightarrow> string \<Rightarrow> string list \<Rightarrow> sset smap \<times> bool \<Rightarrow> sset smap \<times> bool" where
  "firstScan g X [] st = s_add X epsilon st"
| "firstScan g X (token # tokens) st =
     (if token = epsilon then s_add X epsilon st
      else if \<not> m_has g token then s_add X token st
      else
        let st' = s_add_noeps X (m_get (fst st) token) st
        in if epsilon \<notin> set (m_get (fst st') token) then st'
           else firstScan g X tokens st')"

definition firstProd :: "grammar \<Rightarrow> string \<Rightarrow> string \<Rightarrow> sset smap \<times> bool \<Rightarrow> sset smap \<times> bool" where
  "firstProd g X prd st =
     (let tokens = split prd CHR '' '' in if tokens = [] then st else firstScan g X tokens st)"

definition firstRule :: "grammar \<Rightarrow> string \<times> string list \<Rightarrow> sset smap \<times> bool \<Rightarrow> sset smap \<times> bool" where
  "firstRule g rule st = fold (firstProd g (fst rule)) (snd rule) st"

text \<open>One full pass of the \<open>while (changed)\<close> loop, \<open>changed\<close> reset to false before it.\<close>

definition firstPass :: "grammar \<Rightarrow> sset smap \<Rightarrow> sset smap \<times> bool" where
  "firstPass g first = fold (firstRule g) g (first, False)"

text \<open>
  The \<open>while (changed)\<close> loop. A loop that never ends has the value \<open>None\<close>; that this
  one always ends is proved below.
\<close>

partial_function (option) firstLoop :: "grammar \<Rightarrow> sset smap \<Rightarrow> sset smap option" where
  "firstLoop g first =
     (case firstPass g first of
        (first', changed) \<Rightarrow> if changed then firstLoop g first' else Some first')"

declare firstLoop.simps [code]

text \<open>Every non-terminal starts with the empty set.\<close>

definition emptySets :: "grammar \<Rightarrow> sset smap" where
  "emptySets g = fold (\<lambda>rule m. m_put (fst rule) [] m) g []"

definition firstSet :: "grammar \<Rightarrow> sset smap option" where
  "firstSet g = firstLoop g (emptySets g)"

section \<open>FOLLOW sets\<close>

text \<open>\<open>map::at\<close> throws \<open>std::out_of_range\<close> on a missing key.\<close>

datatype error = OutOfRange

definition m_at :: "'v smap \<Rightarrow> string \<Rightarrow> error + 'v" where
  "m_at m k = (case map_of m k of None \<Rightarrow> Inl OutOfRange | Some v \<Rightarrow> Inr v)"

text \<open>
  The \<open>while (true)\<close> loop of \<open>computeFollowSets\<close> for one occurrence of the non-terminal
  \<open>B\<close>, over the tokens from position \<open>j\<close> on. It returns the sets, \<open>changed\<close> and
  \<open>addFollowA\<close>. After \<open>j++\<close>, the test \<open>j > tokens.size() - 1\<close> holds exactly when no
  token is left.
\<close>

fun followScan :: "grammar \<Rightarrow> sset smap \<Rightarrow> string \<Rightarrow> string list \<Rightarrow> sset smap \<times> bool \<Rightarrow> bool
    \<Rightarrow> error + ((sset smap \<times> bool) \<times> bool)" where
  "followScan g first B [] st addFollowA = Inr (st, True)"
| "followScan g first B (beta # rest) st addFollowA =
     (if \<not> m_has g beta then Inr (s_add B beta st, addFollowA)
      else
        (case m_at first beta of
           Inl e \<Rightarrow> Inl e
         | Inr firstBeta \<Rightarrow>
             let st' = s_add_noeps B firstBeta st
             in if epsilon \<notin> set firstBeta then Inr (st', addFollowA)
                else followScan g first B rest st' (addFollowA \<or> rest = [])))"

text \<open>The loop over the positions \<open>i\<close> of one production of \<open>A\<close>.\<close>

fun followTokens :: "grammar \<Rightarrow> sset smap \<Rightarrow> string \<Rightarrow> string list \<Rightarrow> sset smap \<times> bool
    \<Rightarrow> error + (sset smap \<times> bool)" where
  "followTokens g first A [] st = Inr st"
| "followTokens g first A (B # rest) st =
     (if m_has g B then
        (case followScan g first B rest st False of
           Inl e \<Rightarrow> Inl e
         | Inr (st', addFollowA) \<Rightarrow>
             followTokens g first A rest
               (if addFollowA then fold (s_add B) (m_get (fst st') A) st' else st'))
      else followTokens g first A rest st)"

fun followProds :: "grammar \<Rightarrow> sset smap \<Rightarrow> string \<Rightarrow> string list \<Rightarrow> sset smap \<times> bool
    \<Rightarrow> error + (sset smap \<times> bool)" where
  "followProds g first A [] st = Inr st"
| "followProds g first A (prd # prods) st =
     (case followTokens g first A (split prd CHR '' '') st of
        Inl e \<Rightarrow> Inl e
      | Inr st' \<Rightarrow> followProds g first A prods st')"

fun followRules :: "grammar \<Rightarrow> sset smap \<Rightarrow> grammar \<Rightarrow> sset smap \<times> bool
    \<Rightarrow> error + (sset smap \<times> bool)" where
  "followRules g first [] st = Inr st"
| "followRules g first (rule # rules) st =
     (case followProds g first (fst rule) (snd rule) st of
        Inl e \<Rightarrow> Inl e
      | Inr st' \<Rightarrow> followRules g first rules st')"

definition followPass :: "grammar \<Rightarrow> sset smap \<Rightarrow> sset smap \<Rightarrow> error + (sset smap \<times> bool)" where
  "followPass g first follow = followRules g first g (follow, False)"

text \<open>
  The \<open>while (changed)\<close> loop of \<open>computeFollowSets\<close>: \<open>None\<close> for a loop that never
  ends, \<open>Some (Inl OutOfRange)\<close> when \<open>first.at\<close> throws, \<open>Some (Inr follow)\<close> for the map
  returned.
\<close>

partial_function (option) followLoop :: "grammar \<Rightarrow> sset smap \<Rightarrow> sset smap \<Rightarrow> (error + sset smap) option" where
  "followLoop g first follow =
     (case followPass g first follow of
        Inl e \<Rightarrow> Some (Inl e)
      | Inr (follow', changed) \<Rightarrow> if changed then followLoop g first follow' else Some (Inr follow'))"

declare followLoop.simps [code]

definition initFollow :: "grammar \<Rightarrow> string \<Rightarrow> sset smap" where
  "initFollow g startSymbol =
     (let follow = emptySets g
      in m_put startSymbol (fst (s_insert endMarker (m_get follow startSymbol))) follow)"

definition computeFollowSets :: "grammar \<Rightarrow> sset smap \<Rightarrow> string \<Rightarrow> (error + sset smap) option" where
  "computeFollowSets g first startSymbol = followLoop g first (initFollow g startSymbol)"

section \<open>The LL(1) table\<close>

fun firstOfScan :: "string list \<Rightarrow> sset smap \<Rightarrow> grammar \<Rightarrow> sset \<Rightarrow> error + sset" where
  "firstOfScan [] first g result = Inr (fst (s_insert epsilon result))"
| "firstOfScan (token # tokens) first g result =
     (if \<not> m_has g token then Inr (fst (s_insert token result))
      else
        (case m_at first token of
           Inl e \<Rightarrow> Inl e
         | Inr firstToken \<Rightarrow>
             let result' = fold (\<lambda>sym r. if sym \<noteq> epsilon then fst (s_insert sym r) else r)
                             firstToken result
             in if epsilon \<notin> set firstToken then Inr result'
                else firstOfScan tokens first g result'))"

definition computeFirstOfString :: "string list \<Rightarrow> sset smap \<Rightarrow> grammar \<Rightarrow> error + sset" where
  "computeFirstOfString tokens first g = firstOfScan tokens first g []"

type_synonym table = "(string smap) smap"

text \<open>\<open>parsingTable[nonTerminal][terminal] = prod\<close>.\<close>

definition setCell :: "string \<Rightarrow> string \<Rightarrow> string \<Rightarrow> table \<Rightarrow> table" where
  "setCell nonTerminal prd terminal parsingTable =
     m_put nonTerminal (m_put terminal prd (m_get parsingTable nonTerminal)) parsingTable"

text \<open>
  The body of the inner loop of phase 5 for one production. (\<open>followSets[nonTerminal]\<close>
  is read with \<open>operator[]\<close>, a missing key reading as the empty set.)
\<close>

definition tableProd :: "grammar \<Rightarrow> sset smap \<Rightarrow> sset smap \<Rightarrow> string \<Rightarrow> string \<Rightarrow> table \<Rightarrow> error + table" where
  "tableProd g firstSets followSets nonTerminal prd parsingTable =
     (case computeFirstOfString (split prd CHR '' '') firstSets g of
        Inl e \<Rightarrow> Inl e
      | Inr firstAlpha \<Rightarrow>
          let t1 = fold (\<lambda>terminal t. if terminal \<noteq> epsilon then setCell nonTerminal prd terminal t else t)
                     firstAlpha parsingTable
          in Inr (if epsilon \<in> set firstAlpha
                  then fold (setCell nonTerminal prd) (m_get followSets nonTerminal) t1
                  else t1))"

fun tableProds :: "grammar \<Rightarrow> sset smap \<Rightarrow> sset smap \<Rightarrow> string \<Rightarrow> string list \<Rightarrow> table \<Rightarrow> error + table" where
  "tableProds g firstSets followSets nonTerminal [] t = Inr t"
| "tableProds g firstSets followSets nonTerminal (prd # prods) t =
     (case tableProd g firstSets followSets nonTerminal prd t of
        Inl e \<Rightarrow> Inl e
      | Inr t' \<Rightarrow> tableProds g firstSets followSets nonTerminal prods t')"

fun tableRules :: "grammar \<Rightarrow> sset smap \<Rightarrow> sset smap \<Rightarrow> grammar \<Rightarrow> table \<Rightarrow> error + table" where
  "tableRules g firstSets followSets [] t = Inr t"
| "tableRules g firstSets followSets (rule # rules) t =
     (case tableProds g firstSets followSets (fst rule) (snd rule) t of
        Inl e \<Rightarrow> Inl e
      | Inr t' \<Rightarrow> tableRules g firstSets followSets rules t')"

definition buildTable :: "grammar \<Rightarrow> sset smap \<Rightarrow> sset smap \<Rightarrow> error + table" where
  "buildTable g firstSets followSets = tableRules g firstSets followSets g []"

text \<open>Reading a cell of the table.\<close>

definition cell :: "table \<Rightarrow> string \<Rightarrow> string \<Rightarrow> string option" where
  "cell t nonTerminal terminal = map_of (m_get t nonTerminal) terminal"

section \<open>The pipeline of main, after the grammar is read\<close>

record analysis =
  factored :: grammar
  final :: grammar
  firstSets :: "sset smap"
  followSets :: "sset smap"
  parsingTable :: table

definition pipeline :: "grammar \<Rightarrow> string \<Rightarrow> (error + analysis) option" where
  "pipeline g startSymbol =
     (let fg = finalGrammar g in
      case firstSet fg of
        None \<Rightarrow> None
      | Some first \<Rightarrow>
          (case computeFollowSets fg first startSymbol of
             None \<Rightarrow> None
           | Some (Inl e) \<Rightarrow> Some (Inl e)
           | Some (Inr follow) \<Rightarrow>
               (case buildTable fg first follow of
                  Inl e \<Rightarrow> Some (Inl e)
                | Inr t \<Rightarrow>
                    Some (Inr \<lparr>factored = factoredGrammar g, final = fg, firstSets = first,
                               followSets = follow, parsingTable = t\<rparr>))))"

section \<open>Reading the grammar\<close>

text \<open>
  The reading loop of \<open>main\<close> over the lines of the grammar file: \<open>findArrow\<close> is
  \<open>line.find("->")\<close>; the non-terminal is trimmed when it has a character that is
  neither space nor tab; the first non-terminal read while \<open>startSymbol\<close> is empty
  becomes the start symbol.
\<close>

fun findArrow :: "string \<Rightarrow> nat option" where
  "findArrow [] = None"
| "findArrow (c # cs) =
     (if c = CHR ''-'' \<and> (case cs of [] \<Rightarrow> False | d # _ \<Rightarrow> d = CHR ''>'') then Some 0
      else map_option Suc (findArrow cs))"

definition readLine :: "string \<Rightarrow> grammar \<times> string \<Rightarrow> grammar \<times> string" where
  "readLine line st =
     (if line = [] then st
      else
        (case findArrow line of
           None \<Rightarrow> st
         | Some arrowPos \<Rightarrow>
             let nt0 = take arrowPos line;
                 nonTerminal = (if \<exists>c \<in> set nt0. \<not> is_ws c then trim nt0 else nt0);
                 startSymbol = (if snd st = [] then nonTerminal else snd st);
                 prods = split (drop (arrowPos + 2) line) CHR ''|''
             in (m_put nonTerminal prods (fst st), startSymbol)))"

definition readGrammar :: "string list \<Rightarrow> grammar \<times> string" where
  "readGrammar lines = fold readLine lines ([], [])"

text \<open>A production as the sequence of its tokens, and a grammar and a table seen so.\<close>

definition tokensOf :: "string \<Rightarrow> string list" where
  "tokensOf prd = split prd CHR '' ''"

definition grammarTokens :: "grammar \<Rightarrow> (string \<times> string list list) list" where
  "grammarTokens g = map (\<lambda>rule. (fst rule, map tokensOf (snd rule))) g"

definition tableTokens :: "table \<Rightarrow> (string \<times> (string \<times> string list) list) list" where
  "tableTokens t = map (\<lambda>row. (fst row, map (\<lambda>e. (fst e, tokensOf (snd e))) (snd row))) t"

section \<open>Notions used to state the properties\<close>

text \<open>
  \<open>beginsWith A prd\<close>: the production's first token is \<open>A\<close> (the test
  \<open>!tokens.empty() && tokens[0] == nonTerminal\<close> of \<open>leftRecursion\<close>).
\<close>

definition beginsWith :: "string \<Rightarrow> string \<Rightarrow> bool" where
  "beginsWith A prd = (case tokensOf prd of [] \<Rightarrow> False | t # ts \<Rightarrow> t = A)"

text \<open>
  \<open>commonOf prods\<close> is the prefix that \<open>leftFactor\<close> computes for at least two
  productions, and \<open>factors prods\<close> says that \<open>leftFactor\<close> takes its factoring branch.
\<close>

definition commonOf :: "string list \<Rightarrow> string list" where
  "commonOf prods = commonAll (hd (map tokensOf prods)) (tl (map tokensOf prods))"

definition factors :: "string list \<Rightarrow> bool" where
  "factors prods = (2 \<le> length prods \<and> commonOf prods \<noteq> [])"

text \<open>
  The production that the fresh non-terminal receives for one alternative.
\<close>

definition residual :: "string list \<Rightarrow> string \<Rightarrow> string" where
  "residual common prd =
     (let suffix = drop (length common) (tokensOf prd)
      in if suffix = [] then epsilon else spaced suffix)"

text \<open>
  A string that \<open>split\<close> on the space returns as one token equal to itself: not empty,
  without a space, and with neither a space nor a tab at either end.
\<close>

definition cleanToken :: "string \<Rightarrow> bool" where
  "cleanToken t = (t \<noteq> [] \<and> CHR '' '' \<notin> set t \<and> \<not> is_ws (hd t) \<and> \<not> is_ws (last t))"

text \<open>
  The keys of the association list ascend strictly, as the keys of a \<open>std::map\<close> do.
\<close>

definition ordered :: "'v smap \<Rightarrow> bool" where
  "ordered m = sorted_wrt (<) (map fst m)"

text \<open>
  \<open>rewrittenFrom F K p\<close>: \<open>K\<close> is \<open>A'\<close> for some \<open>A\<close>, and \<open>p\<close> is what \<open>leftRecursion\<close>
  stores under \<open>A'\<close> for an entry of \<open>A\<close> in \<open>F\<close>: the epsilon production, or an alternative
  of \<open>A\<close> that begins with \<open>A\<close>, without this first token and followed by \<open>A'\<close>.
\<close>

definition rewrittenFrom :: "grammar \<Rightarrow> string \<Rightarrow> string \<Rightarrow> bool" where
  "rewrittenFrom F K p =
     (\<exists>A. K = A @ apostrophe \<and>
        (p = epsilon \<or>
         (\<exists>prods q. (A, prods) \<in> set F \<and> q \<in> set prods \<and> beginsWith A q \<and>
            p = spaced (tl (tokensOf q)) @ '' '' @ K)))"

text \<open>
  The last element of a list, if it has one.
\<close>

definition lastOption :: "'a list \<Rightarrow> 'a option" where
  "lastOption xs = (if xs = [] then None else Some (last xs))"

text \<open>
  The productions of \<open>A\<close> in the order in which the table builder meets them. (The keys
  of a \<open>std::map\<close> are distinct, and then these are the productions of the entry of \<open>A\<close>.)
\<close>

definition prodsOf :: "grammar \<Rightarrow> string \<Rightarrow> string list" where
  "prodsOf g A = concat (map snd (filter (\<lambda>rule. fst rule = A) g))"

text \<open>
  Production \<open>p\<close> of \<open>A\<close> claims the cell of terminal \<open>t\<close>: \<open>t\<close> is a member other than
  epsilon of FIRST of the production (as \<open>computeFirstOfString\<close> computes it), or epsilon
  is a member of it and \<open>t\<close> is a member of FOLLOW of \<open>A\<close>.
\<close>

definition claimsCell :: "grammar \<Rightarrow> sset smap \<Rightarrow> sset smap \<Rightarrow> string \<Rightarrow> string \<Rightarrow> string \<Rightarrow> bool" where
  "claimsCell g first follow A p t =
     (case computeFirstOfString (tokensOf p) first g of
        Inl e \<Rightarrow> False
      | Inr firstAlpha \<Rightarrow>
          (t \<in> set firstAlpha \<and> t \<noteq> epsilon) \<or>
          (epsilon \<in> set firstAlpha \<and> t \<in> set (m_get follow A)))"

text \<open>
  FIRST of a sequence of symbols in the words of the specification (section 4.5, by the
  rule of section 4.3), over the FIRST sets of the non-terminals. The symbols are scanned
  from the left: for Epsilon, Epsilon is added and the scan stops; for a terminal (a
  symbol that is not a grammar key), the terminal is added and the scan stops; for a
  non-terminal, its FIRST set without Epsilon is added, and the scan goes on to the next
  symbol only if that FIRST set contains Epsilon; a scan that reaches the end of the
  sequence (the empty sequence included) adds Epsilon.
\<close>

fun specFirstOfSequence :: "grammar \<Rightarrow> sset smap \<Rightarrow> string list \<Rightarrow> string set" where
  "specFirstOfSequence g first [] = {epsilon}"
| "specFirstOfSequence g first (X # rest) =
     (if X = epsilon then {epsilon}
      else if \<not> m_has g X then {X}
      else (set (m_get first X) - {epsilon}) \<union>
           (if epsilon \<in> set (m_get first X) then specFirstOfSequence g first rest else {}))"

text \<open>
  Production \<open>p\<close> of \<open>A\<close> claims the cell of \<open>t\<close>, in the words of the specification:
  \<open>t\<close> is a member other than Epsilon of FIRST of \<open>p\<close>, or Epsilon is a member of FIRST
  of \<open>p\<close> and \<open>t\<close> is a member of FOLLOW of \<open>A\<close>.
\<close>

definition specClaimsCell :: "grammar \<Rightarrow> sset smap \<Rightarrow> sset smap \<Rightarrow> string \<Rightarrow> string \<Rightarrow> string \<Rightarrow> bool" where
  "specClaimsCell g first follow A p t =
     ((t \<in> specFirstOfSequence g first (tokensOf p) \<and> t \<noteq> epsilon) \<or>
      (epsilon \<in> specFirstOfSequence g first (tokensOf p) \<and> t \<in> set (m_get follow A)))"

text \<open>
  The tokens of a production that stand after its first non-terminal (grammar key).
\<close>

fun afterNT :: "grammar \<Rightarrow> string list \<Rightarrow> string set" where
  "afterNT g [] = {}"
| "afterNT g (B # rest) = (if m_has g B then set rest else afterNT g rest)"

text \<open>
  In no production does the epsilon token stand after a non-terminal. (In the grammars
  of the specification epsilon is a production of its own.)
\<close>

definition epsilonNotAfterNT :: "grammar \<Rightarrow> bool" where
  "epsilonNotAfterNT g =
     list_all (\<lambda>rule. list_all (\<lambda>p. epsilon \<notin> afterNT g (tokensOf p)) (snd rule)) g"

subsection \<open>Sets that only grow\<close>

text \<open>
  The set that a map of sets holds for a key (empty for a missing key).
\<close>

definition sets_of :: "sset smap \<Rightarrow> string \<Rightarrow> string set" where
  "sets_of m k = set (m_get m k)"

text \<open>
  Every set of the map lies inside \<open>U\<close>.
\<close>

definition within :: "string set \<Rightarrow> sset smap \<Rightarrow> bool" where
  "within U m = (\<forall>k. sets_of m k \<subseteq> U)"

text \<open>
  One or more insertions turn \<open>st\<close> into \<open>st'\<close>: every set only grows, by members of
  \<open>U\<close>, only sets of keys in \<open>K\<close> change, no key is lost, and the \<open>changed\<close> flag is
  set exactly when it was set before or some set is larger than before.
\<close>

definition grows :: "string set \<Rightarrow> string set \<Rightarrow> sset smap \<times> bool \<Rightarrow> sset smap \<times> bool \<Rightarrow> bool" where
  "grows U K st st' =
     ((\<forall>k. sets_of (fst st) k \<subseteq> sets_of (fst st') k) \<and>
      (\<forall>k. sets_of (fst st') k \<subseteq> sets_of (fst st) k \<union> U) \<and>
      (\<forall>k. k \<notin> K \<longrightarrow> sets_of (fst st') k = sets_of (fst st) k) \<and>
      set (map fst (fst st)) \<subseteq> set (map fst (fst st')) \<and>
      (snd st' \<longleftrightarrow> snd st \<or> (\<exists>k. sets_of (fst st') k \<noteq> sets_of (fst st) k)))"

text \<open>
  The number of insertions that the sets of the keys \<open>K\<close> can still take inside \<open>U\<close>.
\<close>

definition slack :: "string set \<Rightarrow> string set \<Rightarrow> sset smap \<Rightarrow> nat" where
  "slack U K m = (\<Sum>k\<in>K. card (U - sets_of m k))"

text \<open>
  Every token of every production of the grammar.
\<close>

definition allTokens :: "grammar \<Rightarrow> string set" where
  "allTokens g = (\<Union>rule\<in>set g. \<Union>p\<in>set (snd rule). set (tokensOf p))"

text \<open>
  The tokens that are not grammar keys lie in \<open>U\<close>.
\<close>

definition terminalsIn :: "grammar \<Rightarrow> string set \<Rightarrow> bool" where
  "terminalsIn g U = (\<forall>t\<in>allTokens g. \<not> m_has g t \<longrightarrow> t \<in> U)"

text \<open>
  The tokens after a non-terminal that are not grammar keys lie in \<open>U\<close>.
\<close>

definition followersIn :: "grammar \<Rightarrow> string set \<Rightarrow> bool" where
  "followersIn g U =
     (\<forall>rule\<in>set g. \<forall>p\<in>set (snd rule). \<forall>t\<in>afterNT g (tokensOf p). \<not> m_has g t \<longrightarrow> t \<in> U)"

text \<open>
  The members of the FIRST sets other than epsilon lie in \<open>U\<close>.
\<close>

definition firstIn :: "sset smap \<Rightarrow> string set \<Rightarrow> bool" where
  "firstIn first U = (\<forall>k fb. map_of first k = Some fb \<longrightarrow> set fb - {epsilon} \<subseteq> U)"

text \<open>
  The FIRST map has an entry for every key of the grammar.
\<close>

definition keysCovered :: "grammar \<Rightarrow> sset smap \<Rightarrow> bool" where
  "keysCovered g first = (set (map fst g) \<subseteq> set (map fst first))"

section \<open>Facts about the containers\<close>

lemma map_of_m_put: "map_of (m_put k v m) = (map_of m)(k \<mapsto> v)"
  by (induction m) auto

lemma m_get_m_put: "m_get (m_put k v m) k' = (if k' = k then v else m_get m k')"
  by (simp add: m_get_def map_of_m_put)

lemma keys_m_put: "set (map fst (m_put k v m)) = insert k (set (map fst m))"
proof (induction m)
  case Nil
  then show ?case by simp
next
  case (Cons a m)
  then show ?case by (cases a) (simp add: insert_commute)
qed

lemma m_has_m_put: "m_has (m_put k v m) k' \<longleftrightarrow> k' = k \<or> m_has m k'"
  unfolding m_has_def keys_m_put by simp

lemma ordered_m_put: "ordered m \<Longrightarrow> ordered (m_put k v m)"
proof (induction m)
  case Nil
  then show ?case by (simp add: ordered_def)
next
  case (Cons a m)
  obtain k' v' where a: "a = (k', v')" by (cases a)
  have m: "ordered m" and lt: "\<forall>x\<in>set (map fst m). k' < x"
    using Cons.prems by (simp_all add: ordered_def a)
  show ?case
  proof (cases "k = k'")
    case True
    then show ?thesis using Cons.prems by (simp add: ordered_def a)
  next
    case ne: False
    show ?thesis
    proof (cases "k < k'")
      case True
      then have "\<forall>x\<in>set (map fst m). k < x" using lt by auto
      then show ?thesis using True ne Cons.prems by (simp add: ordered_def a)
    next
      case False
      then have "k' < k" using ne by auto
      then have "\<forall>x\<in>set (map fst (m_put k v m)). k' < x"
        using lt unfolding keys_m_put by simp
      then show ?thesis
        using False ne Cons.IH [OF m] by (simp add: ordered_def a del: set_map)
    qed
  qed
qed

lemma ordered_entry: "ordered F \<Longrightarrow> (A, prods) \<in> set F \<Longrightarrow> m_get F A = prods"
proof -
  assume "ordered F" and m: "(A, prods) \<in> set F"
  then have "distinct (map fst F)"
    by (simp add: ordered_def strict_sorted_iff)
  then show ?thesis using m by (simp add: m_get_def)
qed

section \<open>Facts about tokens\<close>

lemma split_tokensOf: "(\<lambda>prd. split prd CHR '' '') = tokensOf"
  by (simp add: tokensOf_def fun_eq_iff)

text \<open>
  What \<open>split\<close> on the space returns: its tokens are clean, a clean token is split into
  itself, and tokens written each with a space after it are read back unchanged.
\<close>

lemma trim_clean:
  assumes "t \<noteq> []" and "\<not> is_ws (hd t)" and "\<not> is_ws (last t)"
  shows "trim t = t"
proof -
  have 1: "dropWhile is_ws t = t"
    using assms(1,2) by (cases t) simp_all
  have "rev t \<noteq> []" and "\<not> is_ws (hd (rev t))"
    using assms(1,3) by (simp_all add: hd_rev)
  then have "dropWhile is_ws (rev t) = rev t"
    by (cases "rev t") simp_all
  then show ?thesis by (simp add: trim_def 1)
qed

lemma getlines_no_delimiter: "d \<notin> set s \<Longrightarrow> s \<noteq> [] \<Longrightarrow> getlines d s = [s]"
proof (induction s)
  case Nil
  then show ?case by simp
next
  case (Cons c cs)
  then show ?case by (cases cs) auto
qed

lemma getlines_delimiter: "d \<notin> set t \<Longrightarrow> getlines d (t @ d # rest) = t # getlines d rest"
  by (induction t) auto

lemma getlines_pieces: "p \<in> set (getlines d s) \<Longrightarrow> d \<notin> set p"
proof (induction s arbitrary: p)
  case Nil
  then show ?case by simp
next
  case (Cons c cs)
  show ?case
  proof (cases "c = d")
    case True
    then show ?thesis using Cons by auto
  next
    case False
    then show ?thesis using Cons by (cases "getlines d cs") auto
  qed
qed

lemma trim_token:
  assumes "\<exists>c\<in>set p. \<not> is_ws c"
  shows "trim p \<noteq> [] \<and> \<not> is_ws (hd (trim p)) \<and> \<not> is_ws (last (trim p)) \<and> set (trim p) \<subseteq> set p"
proof -
  define q where "q = dropWhile is_ws p"
  have q: "q \<noteq> []" using assms by (auto simp: q_def dropWhile_eq_Nil_conv)
  have hq: "\<not> is_ws (hd q)" using q unfolding q_def by (rule hd_dropWhile)
  have sq: "set q \<subseteq> set p" unfolding q_def by (auto dest: set_dropWhileD)
  define r where "r = dropWhile is_ws (rev q)"
  have "hd q \<in> set (rev q)" using q by simp
  then have r: "r \<noteq> []" using hq by (auto simp: r_def dropWhile_eq_Nil_conv)
  have hr: "\<not> is_ws (hd r)" using r unfolding r_def by (rule hd_dropWhile)
  have sr: "set r \<subseteq> set q" unfolding r_def by (auto dest: set_dropWhileD)
  have "rev q = takeWhile is_ws (rev q) @ r" by (simp add: r_def)
  then have "last (rev q) = last r" using r by (metis last_appendR)
  then have lr: "last r = hd q" using q by (simp add: last_rev)
  have t: "trim p = rev r" by (simp add: trim_def q_def r_def)
  show ?thesis
    unfolding t using r hr lr hq sr sq by (simp add: hd_rev last_rev)
qed

lemma split_tokens_clean: "t \<in> set (split s CHR '' '') \<Longrightarrow> cleanToken t"
proof -
  assume "t \<in> set (split s CHR '' '')"
  then obtain p where p: "p \<in> set (getlines CHR '' '' s)" "\<exists>c\<in>set p. \<not> is_ws c" "t = trim p"
    by (auto simp: split_def split: if_splits)
  have "CHR '' '' \<notin> set p" using getlines_pieces [OF p(1)] .
  then show ?thesis
    using trim_token [OF p(2)] p(3) by (auto simp: cleanToken_def)
qed

lemma split_clean: "cleanToken t \<Longrightarrow> split t CHR '' '' = [t]"
proof -
  assume c: "cleanToken t"
  then have "getlines CHR '' '' t = [t]"
    by (simp add: cleanToken_def getlines_no_delimiter)
  moreover have "\<exists>c\<in>set t. \<not> is_ws c"
    using c by (auto simp: cleanToken_def intro: bexI [of _ "hd t"])
  moreover have "trim t = t"
    using c by (simp add: cleanToken_def trim_clean)
  ultimately show ?thesis by (simp add: split_def)
qed

lemma split_token_space:
  assumes "cleanToken t"
  shows "split (t @ '' '' @ s) CHR '' '' = t # split s CHR '' ''"
proof -
  have "getlines CHR '' '' (t @ CHR '' '' # s) = t # getlines CHR '' '' s"
    using assms by (simp add: cleanToken_def getlines_delimiter)
  moreover have "\<exists>c\<in>set t. \<not> is_ws c"
    using assms by (auto simp: cleanToken_def intro: bexI [of _ "hd t"])
  moreover have "trim t = t"
    using assms by (simp add: cleanToken_def trim_clean)
  ultimately show ?thesis by (simp add: split_def)
qed

lemma split_space: "split (CHR '' '' # s) CHR '' '' = split s CHR '' ''"
  by (simp add: split_def)

lemma split_spaced:
  "\<forall>t\<in>set ts. cleanToken t \<Longrightarrow> split (spaced ts @ s) CHR '' '' = ts @ split s CHR '' ''"
proof (induction ts)
  case Nil
  then show ?case by (simp add: spaced_def)
next
  case (Cons t ts)
  have "spaced (t # ts) @ s = t @ '' '' @ (spaced ts @ s)"
    by (simp add: spaced_def)
  then show ?case using Cons split_token_space [of t "spaced ts @ s"] by simp
qed

lemma split_append_space:
  "split (a @ CHR '' '' # b) CHR '' '' = split a CHR '' '' @ split b CHR '' ''"
proof (induction "length a" arbitrary: a rule: less_induct)
  case less
  show ?case
  proof (cases "CHR '' '' \<in> set a")
    case False
    then have 1: "getlines CHR '' '' (a @ CHR '' '' # b) = a # getlines CHR '' '' b"
      by (rule getlines_delimiter)
    have 2: "getlines CHR '' '' a = (if a = [] then [] else [a])"
      using False by (simp add: getlines_no_delimiter)
    show ?thesis by (simp add: split_def 1 2)
  next
    case True
    then obtain t a' where a: "a = t @ CHR '' '' # a'" and t: "CHR '' '' \<notin> set t"
      by (auto dest: split_list_first)
    have 1: "getlines CHR '' '' (a @ CHR '' '' # b) = t # getlines CHR '' '' (a' @ CHR '' '' # b)"
      using getlines_delimiter [OF t, of "a' @ CHR '' '' # b"] by (simp add: a)
    have 2: "getlines CHR '' '' a = t # getlines CHR '' '' a'"
      using getlines_delimiter [OF t, of a'] by (simp add: a)
    have "length a' < length a" by (simp add: a)
    then have "split (a' @ CHR '' '' # b) CHR '' '' = split a' CHR '' '' @ split b CHR '' ''"
      by (rule less)
    then show ?thesis
      using 1 2 by (simp add: split_def)
  qed
qed

lemma tokensOf_spaced: "\<forall>t\<in>set ts. cleanToken t \<Longrightarrow> tokensOf (spaced ts) = ts"
  using split_spaced [of ts "[]"] by (simp add: tokensOf_def split_def)

lemma tokensOf_clean: "t \<in> set (tokensOf p) \<Longrightarrow> cleanToken t"
  by (simp add: tokensOf_def split_tokens_clean)

lemma cleanToken_apostrophe: "cleanToken A \<Longrightarrow> cleanToken (A @ apostrophe)"
  by (simp add: cleanToken_def apostrophe_def is_ws_def)

lemma tokensOf_epsilon: "tokensOf epsilon = [epsilon]"
  by (simp add: tokensOf_def split_clean cleanToken_def epsilon_def is_ws_def)

lemma epsilon_not_fresh: "A @ apostrophe \<noteq> epsilon"
proof
  assume "A @ apostrophe = epsilon"
  then have "last (A @ apostrophe) = last epsilon" by simp
  then show False by (simp add: apostrophe_def epsilon_def)
qed

lemma less_with_apostrophe: "K < K @ apostrophe"
  by (simp add: list_less_def lexord_append_rightI apostrophe_def)

lemma digit_table: "list_all (\<lambda>n::nat. char_of (48 + n) \<in> set ''0123456789'') [0..<10]"
  by code_simp

lemma digit_char: "(n::nat) < 10 \<Longrightarrow> char_of (48 + n) \<in> set ''0123456789''"
  using digit_table unfolding list_all_iff by simp

lemma digits_chars: "set (digits n) \<subseteq> set ''0123456789''"
proof (induction n rule: digits.induct)
  case (1 n)
  show ?case
  proof (cases "n < 10")
    case True
    then show ?thesis using digit_char [of n] by (subst digits.simps) simp
  next
    case False
    have "n mod 10 < 10" by simp
    then have "char_of (48 + n mod 10) \<in> set ''0123456789''" by (rule digit_char)
    then show ?thesis using False 1 by (subst digits.simps) simp
  qed
qed

lemma digits_nonempty: "digits n \<noteq> []"
  by (subst digits.simps) simp

lemma cleanToken_fresh:
  assumes "cleanToken N"
  shows "cleanToken (N @ apostrophe @ (if c > 1 then to_string c else []))"
proof (cases "c > 1")
  case False
  then show ?thesis using cleanToken_apostrophe [OF assms] by simp
next
  case True
  have d: "set (digits (nat c)) \<subseteq> set ''0123456789''" by (rule digits_chars)
  have l: "last (digits (nat c)) \<in> set (digits (nat c))"
    using digits_nonempty by simp
  have "\<not> is_ws (last (digits (nat c)))"
    using d l by (auto simp: is_ws_def)
  moreover have "CHR '' '' \<notin> set (digits (nat c))"
    using d by auto
  ultimately show ?thesis
    using assms True digits_nonempty [of "nat c"]
    by (simp add: cleanToken_def to_string_def apostrophe_def)
qed

section \<open>The scenario of the specification\<close>

text \<open>
  C6. On the grammar \<open>S -> A a | A b\<close>, \<open>A -> c | d\<close> with start symbol \<open>S\<close>, read as
  sequences of tokens: left factoring gives \<open>S -> A S'\<close>, \<open>S' -> a | b\<close>, \<open>A -> c | d\<close>,
  which the removal of left recursion leaves unchanged; the FIRST sets are \<open>{c, d}\<close> for
  \<open>A\<close> and \<open>S\<close> and \<open>{a, b}\<close> for \<open>S'\<close>; the FOLLOW sets are \<open>{$}\<close> for \<open>S\<close> and \<open>S'\<close>
  and \<open>{a, b}\<close> for \<open>A\<close>; the table has exactly the six entries of the specification.
  (The strings that the source stores for \<open>S'\<close> are \<open>a\<close> and \<open>b\<close> followed by a space;
  their token sequences are \<open>[a]\<close> and \<open>[b]\<close>.)
\<close>

theorem scenario_literal:
  "readGrammar [''S -> A a | A b'', ''A -> c | d''] =
     ([(''A'', [''c'', ''d'']), (''S'', [''A a'', ''A b''])], ''S'') \<and>
   pipeline [(''A'', [''c'', ''d'']), (''S'', [''A a'', ''A b''])] ''S'' =
     Some (Inr \<lparr>
       factored =
         [(''A'', [''c'', ''d'']), (''S'', [''A S'' @ apostrophe]),
          (''S'' @ apostrophe, [''a '', ''b ''])],
       final =
         [(''A'', [''c'', ''d'']), (''S'', [''A S'' @ apostrophe]),
          (''S'' @ apostrophe, [''a '', ''b ''])],
       firstSets =
         [(''A'', [''c'', ''d'']), (''S'', [''c'', ''d'']), (''S'' @ apostrophe, [''a'', ''b''])],
       followSets =
         [(''A'', [''a'', ''b'']), (''S'', [endMarker]), (''S'' @ apostrophe, [endMarker])],
       parsingTable =
         [(''A'', [(''c'', ''c''), (''d'', ''d'')]),
          (''S'', [(''c'', ''A S'' @ apostrophe), (''d'', ''A S'' @ apostrophe)]),
          (''S'' @ apostrophe, [(''a'', ''a ''), (''b'', ''b '')])]\<rparr>) \<and>
   grammarTokens
     [(''A'', [''c'', ''d'']), (''S'', [''A S'' @ apostrophe]),
      (''S'' @ apostrophe, [''a '', ''b ''])] =
     [(''A'', [[''c''], [''d'']]),
      (''S'', [[''A'', ''S'' @ apostrophe]]),
      (''S'' @ apostrophe, [[''a''], [''b'']])] \<and>
   tableTokens
     [(''A'', [(''c'', ''c''), (''d'', ''d'')]),
      (''S'', [(''c'', ''A S'' @ apostrophe), (''d'', ''A S'' @ apostrophe)]),
      (''S'' @ apostrophe, [(''a'', ''a ''), (''b'', ''b '')])] =
     [(''A'', [(''c'', [''c'']), (''d'', [''d''])]),
      (''S'', [(''c'', [''A'', ''S'' @ apostrophe]), (''d'', [''A'', ''S'' @ apostrophe])]),
      (''S'' @ apostrophe, [(''a'', [''a'']), (''b'', [''b''])])]"
  by code_simp

section \<open>Properties of left factoring\<close>

text \<open>
  The signed value of the counter, as long as it has not passed \<open>INT_MAX\<close>.
\<close>

lemma sint_counter: "n < 2147483648 \<Longrightarrow> sint (of_nat n :: 32 word) = int n"
proof -
  assume n: "n < 2147483648"
  have "sint (word_of_int (int n) :: 32 word) = (int n + 2 ^ (32 - 1)) mod 2 ^ 32 - 2 ^ (32 - 1)"
    using int_word_sint [where 'a = 32, of "int n"] by simp
  also have "\<dots> = int n" using n by simp
  finally show ?thesis by simp
qed

text \<open>The counter grows by one with each factored non-terminal.\<close>

lemma leftFactor_count:
  "snd (leftFactor N prods G c) = (if factors prods then c + 1 else c)"
  by (simp add: leftFactor_def factors_def commonOf_def Let_def split_tokensOf not_less)

lemma factorFrom_count:
  "snd (factorFrom pre (G, c)) = c + of_nat (length (filter (\<lambda>rule. factors (snd rule)) pre))"
proof (induction pre arbitrary: G c)
  case Nil
  then show ?case by (simp add: factorFrom_def)
next
  case (Cons rule pre)
  obtain G' c' where st: "factorStep rule (G, c) = (G', c')"
    by (cases "factorStep rule (G, c)")
  have c': "c' = (if factors (snd rule) then c + 1 else c)"
    using st leftFactor_count [of "fst rule" "snd rule" G c] by (simp add: factorStep_def)
  have "factorFrom (rule # pre) (G, c) = factorFrom pre (G', c')"
    by (simp add: factorFrom_def st)
  then show ?case using Cons.IH [of G' c'] c' by simp
qed

lemma factorFrom_snoc:
  "factorFrom (pre @ [(N, prods)]) st =
     leftFactor N prods (fst (factorFrom pre st)) (snd (factorFrom pre st))"
  by (simp add: factorFrom_def factorStep_def)

lemma leftFactor_factors:
  assumes "factors prods"
  shows "leftFactor N prods G c =
     (let newNT = N @ apostrophe @ (if 1 <s c then to_string (sint c) else [])
      in (m_put newNT (map (residual (commonOf prods)) prods)
            (m_put N (m_get G N @ [spaced (commonOf prods) @ newNT]) G), c + 1))"
  using assms
  by (simp add: leftFactor_def factors_def commonOf_def Let_def split_tokensOf
      residual_def [abs_def] comp_def not_less)

lemma leftFactor_copies:
  "\<not> factors prods \<Longrightarrow> leftFactor N prods newProds c = (m_put N prods newProds, c)"
  by (auto simp: leftFactor_def factors_def commonOf_def Let_def split_tokensOf)

lemma ordered_leftFactor: "ordered G \<Longrightarrow> ordered (fst (leftFactor N prods G c))"
  by (simp add: leftFactor_def Let_def ordered_m_put)

lemma ordered_factorFrom: "ordered (fst st) \<Longrightarrow> ordered (fst (factorFrom g st))"
  unfolding factorFrom_def
proof (induction g arbitrary: st)
  case Nil
  then show ?case by simp
next
  case (Cons rule g)
  have "ordered (fst (factorStep rule st))"
    using Cons.prems by (simp add: factorStep_def ordered_leftFactor)
  then show ?case using Cons.IH by simp
qed

lemma ordered_factoredGrammar: "ordered (factoredGrammar g)"
  unfolding factoredGrammar_def by (rule ordered_factorFrom) (simp add: ordered_def)

text \<open>
  The computed prefix is the greatest common prefix: a sequence is a prefix of it exactly
  when it is a prefix of every tokenized alternative.
\<close>

lemma prefix_commonPrefix: "prefix q (commonPrefix a b) \<longleftrightarrow> prefix q a \<and> prefix q b"
proof (induction a arbitrary: b q)
  case Nil
  then show ?case by auto
next
  case (Cons x a)
  show ?case
  proof (cases b)
    case Nil
    then show ?thesis by auto
  next
    case (Cons y b')
    then show ?thesis using Cons.IH [of _ b'] by (cases q) auto
  qed
qed

lemma prefix_commonAll:
  "prefix q (commonAll c ts) \<longleftrightarrow> prefix q c \<and> (\<forall>t\<in>set ts. prefix q t)"
proof (induction ts arbitrary: c)
  case Nil
  then show ?case by simp
next
  case (Cons t ts)
  show ?case
  proof (cases "commonPrefix c t = []")
    case True
    then have "prefix q c \<and> prefix q t \<longleftrightarrow> q = []"
      using prefix_commonPrefix [of q c t] by simp
    then show ?thesis using True by auto
  next
    case False
    then show ?thesis using Cons [of "commonPrefix c t"] by (simp add: Let_def prefix_commonPrefix)
  qed
qed

lemma prefix_commonOf:
  assumes "prods \<noteq> []"
  shows "prefix q (commonOf prods) \<longleftrightarrow> (\<forall>p\<in>set prods. prefix q (tokensOf p))"
proof -
  obtain p ps where "prods = p # ps" using assms by (cases prods) auto
  then show ?thesis by (simp add: commonOf_def prefix_commonAll)
qed

lemma tokensOf_residual:
  "tokensOf (residual common p) =
     (if drop (length common) (tokensOf p) = [] then [epsilon] else drop (length common) (tokensOf p))"
proof (cases "drop (length common) (tokensOf p) = []")
  case True
  then show ?thesis by (simp add: residual_def tokensOf_epsilon)
next
  case False
  have "\<forall>t\<in>set (drop (length common) (tokensOf p)). cleanToken t"
    using tokensOf_clean [of _ p] by (auto dest: in_set_dropD)
  then show ?thesis using False by (simp add: residual_def Let_def tokensOf_spaced)
qed

lemma tokensOf_factored:
  assumes "cleanToken newNT" and "prods \<noteq> []"
  shows "tokensOf (spaced (commonOf prods) @ newNT) = commonOf prods @ [newNT]"
proof -
  have "\<forall>t\<in>set (commonOf prods). cleanToken t"
  proof (cases prods)
    case Nil
    then show ?thesis using assms(2) by simp
  next
    case (Cons p ps)
    have "prefix (commonOf prods) (commonOf prods)" by simp
    then have "prefix (commonOf prods) (tokensOf p)"
      using prefix_commonOf [of prods "commonOf prods"] Cons by simp
    then have "set (commonOf prods) \<subseteq> set (tokensOf p)" by (rule set_mono_prefix)
    then show ?thesis using tokensOf_clean [of _ p] by blast
  qed
  then have "split (spaced (commonOf prods) @ newNT) CHR '' '' = commonOf prods @ split newNT CHR '' ''"
    by (rule split_spaced)
  then show ?thesis using assms by (simp add: tokensOf_def split_clean)
qed

subsection \<open>Fresh names\<close>

text \<open>
  C3, the counterexample. The grammar \<open>A -> x y | x z\<close>, \<open>B -> p q | p r\<close>: the second
  fresh name of the pass is \<open>B'2\<close>, not \<open>B'\<close>.
\<close>

theorem second_fresh_name_has_counter:
  "readGrammar [''A -> x y | x z'', ''B -> p q | p r''] =
     ([(''A'', [''x y'', ''x z'']), (''B'', [''p q'', ''p r''])], ''A'') \<and>
   factoredGrammar [(''A'', [''x y'', ''x z'']), (''B'', [''p q'', ''p r''])] =
     [(''A'', [''x A'' @ apostrophe]),
      (''A'' @ apostrophe, [''y '', ''z '']),
      (''B'', [''p B'' @ apostrophe @ ''2'']),
      (''B'' @ apostrophe @ ''2'', [''q '', ''r ''])] \<and>
   \<not> m_has (factoredGrammar [(''A'', [''x y'', ''x z'']), (''B'', [''p q'', ''p r''])])
       (''B'' @ apostrophe)"
  by code_simp

text \<open>
  C3, as amended. In one pass (the counter starting at 1), let \<open>k\<close> be the number of
  non-terminals factored before \<open>N\<close>, the counter not passing \<open>INT_MAX\<close> with \<open>N\<close>
  (\<open>k + 2 < 2^31\<close>). When \<open>N\<close> is factored, its fresh name is \<open>N'\<close> if \<open>k = 0\<close> and \<open>N'\<close>
  followed by the decimal \<open>k + 1\<close> (the counter) otherwise: only the first allocation of
  the pass gets the bare apostrophe. The fresh name receives the residual productions,
  the factored production ends with it, and the counter becomes \<open>k + 2\<close>.
\<close>

theorem fresh_name_in_pass:
  assumes "factors prods"
    and "k = length (filter (\<lambda>rule. factors (snd rule)) pre)"
    and "k + 2 < 2 ^ 31"
    and "fresh = N @ apostrophe @ (if k = 0 then [] else to_string (int k + 1))"
  shows "(case factorFrom (pre @ [(N, prods)]) ([], 1) of
      (newProds, newNTcount) \<Rightarrow>
        sint newNTcount = int k + 2 \<and>
        map_of newProds fresh = Some (map (residual (commonOf prods)) prods) \<and>
        m_get newProds N \<noteq> [] \<and>
        last (m_get newProds N) = spaced (commonOf prods) @ fresh)"
proof -
  obtain G c where st: "factorFrom pre ([], 1) = (G, c)"
    by (cases "factorFrom pre ([], 1)")
  have c: "c = of_nat (Suc k)"
    using factorFrom_count [of pre "[]" 1] st assms(2) by simp
  have sc: "sint c = int k + 1"
    unfolding c using sint_counter [of "Suc k"] assms(3) by simp
  have "c + 1 = of_nat (Suc (Suc k))"
    unfolding c by simp
  then have sc1: "sint (c + 1) = int k + 2"
    using sint_counter [of "Suc (Suc k)"] assms(3) by simp
  have fresh: "N @ apostrophe @ (if 1 <s c then to_string (sint c) else []) = fresh"
    using sc assms(4) by (simp add: word_sless_alt add.commute)
  have neq: "N \<noteq> fresh"
    using assms(4) by (simp add: apostrophe_def)
  show ?thesis
    unfolding factorFrom_snoc st fst_conv snd_conv leftFactor_factors [OF assms(1)] Let_def fresh
    using sc1 neq by (simp add: map_of_m_put m_get_m_put)
qed

theorem fresh_name_in_pass_witness:
  "(case factorFrom ([(''A'', [''x y'', ''x z''])] @ [(''B'', [''p q'', ''p r''])]) ([], 1) of
      (newProds, newNTcount) \<Rightarrow>
        sint newNTcount = 3 \<and>
        map_of newProds (''B'' @ apostrophe @ ''2'') = Some [''q '', ''r ''] \<and>
        m_get newProds ''B'' \<noteq> [] \<and>
        last (m_get newProds ''B'') = ''p B'' @ apostrophe @ ''2'')"
proof -
  have f: "factors [''p q'', ''p r'']" by code_simp
  have k: "(1::nat) = length (filter (\<lambda>rule. factors (snd rule)) [(''A'', [''x y'', ''x z''])])"
    by code_simp
  have b: "(1::nat) + 2 < 2 ^ 31" by simp
  have n: "''B'' @ apostrophe @ ''2'' =
      ''B'' @ apostrophe @ (if (1::nat) = 0 then [] else to_string (int 1 + 1))"
    by code_simp
  have r: "map (residual (commonOf [''p q'', ''p r''])) [''p q'', ''p r''] = [''q '', ''r '']"
    by code_simp
  have s: "spaced (commonOf [''p q'', ''p r'']) = ''p ''"
    by code_simp
  show ?thesis
    using fresh_name_in_pass [OF f k b n] unfolding r s by simp
qed

subsection \<open>The factored productions\<close>

text \<open>
  C5, the failing input. The grammar \<open>A -> x y | x z\<close>, \<open>A' -> p q | p r\<close>: factoring
  \<open>A\<close> stores \<open>y | z\<close> under the fresh name \<open>A'\<close>, which is a key of the input as well.
  Factoring this key then appends its factored production to that entry (\<open>push_back\<close>,
  where the other branches assign): the call returns, and the factored grammar holds,
  three productions for \<open>A'\<close>. The productions of \<open>A'\<close> are not replaced by the single
  production \<open>p A''2\<close>, and the fresh non-terminal of \<open>A\<close> does not hold exactly one
  production per alternative of \<open>A\<close>.
\<close>

theorem left_factor_appends:
  "readGrammar [''A -> x y | x z'', ''A'' @ apostrophe @ '' -> p q | p r''] =
     ([(''A'', [''x y'', ''x z'']), (''A'' @ apostrophe, [''p q'', ''p r''])], ''A'') \<and>
   factors [''x y'', ''x z''] \<and>
   factors [''p q'', ''p r''] \<and>
   leftFactor ''A'' [''x y'', ''x z''] [] 1 =
     ([(''A'', [''x A'' @ apostrophe]), (''A'' @ apostrophe, [''y '', ''z ''])], 2) \<and>
   leftFactor (''A'' @ apostrophe) [''p q'', ''p r'']
       [(''A'', [''x A'' @ apostrophe]), (''A'' @ apostrophe, [''y '', ''z ''])] 2 =
     ([(''A'', [''x A'' @ apostrophe]),
       (''A'' @ apostrophe, [''y '', ''z '', ''p A'' @ apostrophe @ apostrophe @ ''2'']),
       (''A'' @ apostrophe @ apostrophe @ ''2'', [''q '', ''r ''])], 3) \<and>
   factoredGrammar [(''A'', [''x y'', ''x z'']), (''A'' @ apostrophe, [''p q'', ''p r''])] =
     [(''A'', [''x A'' @ apostrophe]),
      (''A'' @ apostrophe, [''y '', ''z '', ''p A'' @ apostrophe @ apostrophe @ ''2'']),
      (''A'' @ apostrophe @ apostrophe @ ''2'', [''q '', ''r ''])]"
  by code_simp

text \<open>
  What one call of \<open>leftFactor\<close> does when the output grammar holds no production yet
  under \<open>N\<close>, for every value \<open>c\<close> of the counter. The prefix computed is the longest
  token sequence common to all alternatives: a sequence is a prefix of it exactly when it
  is a prefix of every alternative. If \<open>N\<close> has at least two productions and this prefix
  is not empty, the entry of \<open>N\<close> becomes the single production of the prefix followed by
  the fresh name (as tokens, when the name \<open>N\<close> is one token), and the fresh name
  receives one production per alternative, in order: its tokens after the prefix, or
  epsilon when none is left. Otherwise the productions of \<open>N\<close> are copied unchanged and the
  counter stays.
\<close>

lemma leftFactor_on_empty_entry:
  assumes "m_get newProds N = []"
    and "newNT = N @ apostrophe @ (if 1 <s c then to_string (sint c) else [])"
  shows "(prods \<noteq> [] \<longrightarrow>
            (\<forall>q. prefix q (commonOf prods) \<longleftrightarrow> (\<forall>p\<in>set prods. prefix q (tokensOf p)))) \<and>
         (if 2 \<le> length prods \<and> commonOf prods \<noteq> []
          then leftFactor N prods newProds c =
                 (m_put newNT (map (residual (commonOf prods)) prods)
                    (m_put N [spaced (commonOf prods) @ newNT] newProds), c + 1) \<and>
               (cleanToken N \<longrightarrow>
                  tokensOf (spaced (commonOf prods) @ newNT) = commonOf prods @ [newNT]) \<and>
               (\<forall>p. tokensOf (residual (commonOf prods) p) =
                  (if drop (length (commonOf prods)) (tokensOf p) = [] then [epsilon]
                   else drop (length (commonOf prods)) (tokensOf p)))
          else leftFactor N prods newProds c = (m_put N prods newProds, c))"
proof (intro conjI)
  show "prods \<noteq> [] \<longrightarrow>
      (\<forall>q. prefix q (commonOf prods) \<longleftrightarrow> (\<forall>p\<in>set prods. prefix q (tokensOf p)))"
    using prefix_commonOf by blast
next
  show "if 2 \<le> length prods \<and> commonOf prods \<noteq> []
          then leftFactor N prods newProds c =
                 (m_put newNT (map (residual (commonOf prods)) prods)
                    (m_put N [spaced (commonOf prods) @ newNT] newProds), c + 1) \<and>
               (cleanToken N \<longrightarrow>
                  tokensOf (spaced (commonOf prods) @ newNT) = commonOf prods @ [newNT]) \<and>
               (\<forall>p. tokensOf (residual (commonOf prods) p) =
                  (if drop (length (commonOf prods)) (tokensOf p) = [] then [epsilon]
                   else drop (length (commonOf prods)) (tokensOf p)))
          else leftFactor N prods newProds c = (m_put N prods newProds, c)"
  proof (cases "factors prods")
    case False
    then show ?thesis using leftFactor_copies [OF False] by (simp add: factors_def)
  next
    case True
    have ne: "prods \<noteq> []" using True by (auto simp: factors_def)
    have nt: "newNT = N @ apostrophe @ (if sint c > 1 then to_string (sint c) else [])"
      using assms(2) by (simp add: word_sless_alt)
    have 1: "cleanToken N \<longrightarrow> tokensOf (spaced (commonOf prods) @ newNT) = commonOf prods @ [newNT]"
      using tokensOf_factored [of newNT prods] cleanToken_fresh [of N "sint c"] nt ne by simp
    have 2: "leftFactor N prods newProds c =
                 (m_put newNT (map (residual (commonOf prods)) prods)
                    (m_put N [spaced (commonOf prods) @ newNT] newProds), c + 1)"
      unfolding leftFactor_factors [OF True] Let_def assms(2) [symmetric]
      using assms(1) by simp
    show ?thesis
      using True 1 2 tokensOf_residual by (simp add: factors_def)
  qed
qed

section \<open>Properties of the removal of left recursion\<close>

lemma partitionProds_all_recursive:
  "list_all (beginsWith A) prods \<Longrightarrow>
     partitionProds A prods = (map (\<lambda>p. spaced (tl (tokensOf p))) prods, [])"
proof (induction prods)
  case Nil
  then show ?case by simp
next
  case (Cons p prods)
  then have "tokensOf p \<noteq> [] \<and> hd (tokensOf p) = A"
    by (auto simp: beginsWith_def split: list.splits)
  with Cons show ?case by (simp add: tokensOf_def)
qed

lemma partitionProds_nonRecursive:
  "p \<in> set (snd (partitionProds A prods)) \<Longrightarrow> \<not> beginsWith A p"
proof (induction prods arbitrary: p)
  case Nil
  then show ?case by simp
next
  case (Cons q prods)
  then show ?case
    by (cases "tokensOf q")
      (auto simp: beginsWith_def tokensOf_def split: prod.splits if_splits)
qed

lemma partitionProds_none_recursive:
  "fst (partitionProds A prods) = [] \<Longrightarrow> p \<in> set prods \<Longrightarrow> \<not> beginsWith A p"
proof (induction prods)
  case Nil
  then show ?case by simp
next
  case (Cons q prods)
  then show ?case
    by (cases "tokensOf q")
      (auto simp: beginsWith_def tokensOf_def split: prod.splits if_splits)
qed

lemma partitionProds_recursive:
  "alpha \<in> set (fst (partitionProds A prods)) \<Longrightarrow>
     \<exists>q\<in>set prods. beginsWith A q \<and> alpha = spaced (tl (tokensOf q))"
proof (induction prods arbitrary: alpha)
  case Nil
  then show ?case by simp
next
  case (Cons q prods)
  then show ?case
    by (cases "tokensOf q")
      (auto simp: beginsWith_def tokensOf_def split: prod.splits if_splits)
qed

lemma tokensOf_rewritten:
  assumes "beginsWith A p"
  shows "tokensOf (spaced (tl (tokensOf p)) @ '' '' @ A @ apostrophe) = tl (tokensOf p) @ [A @ apostrophe]"
proof -
  obtain ts where ts: "tokensOf p = A # ts"
    using assms by (auto simp: beginsWith_def split: list.splits)
  have cA: "cleanToken A" using tokensOf_clean [of A p] ts by simp
  have cts: "\<forall>t\<in>set ts. cleanToken t" using tokensOf_clean [of _ p] ts by simp
  have "split (spaced ts @ CHR '' '' # A @ apostrophe) CHR '' '' = ts @ split (CHR '' '' # A @ apostrophe) CHR '' ''"
    by (rule split_spaced [OF cts])
  also have "\<dots> = ts @ [A @ apostrophe]"
    by (simp add: split_space split_clean cleanToken_apostrophe [OF cA])
  finally have "split (spaced ts @ CHR '' '' # A @ apostrophe) CHR '' '' = ts @ [A @ apostrophe]" .
  moreover have "tl (tokensOf p) = ts" by (simp add: ts)
  ultimately show ?thesis unfolding tokensOf_def by simp
qed

lemma not_beginsWith_appended:
  assumes "\<not> beginsWith A beta"
  shows "\<not> beginsWith A (beta @ '' '' @ A @ apostrophe)"
proof
  assume b: "beginsWith A (beta @ '' '' @ A @ apostrophe)"
  have t: "tokensOf (beta @ '' '' @ A @ apostrophe) = tokensOf beta @ tokensOf (A @ apostrophe)"
    using split_append_space [of beta "A @ apostrophe"] by (simp add: tokensOf_def)
  show False
  proof (cases "tokensOf beta")
    case (Cons x xs)
    then show ?thesis using b assms t by (simp add: beginsWith_def)
  next
    case Nil
    then have h: "beginsWith A (A @ apostrophe)"
      using b t by (simp add: beginsWith_def)
    then obtain ts where ts: "tokensOf (A @ apostrophe) = A # ts"
      by (auto simp: beginsWith_def split: list.splits)
    then have "cleanToken A" using tokensOf_clean [of A "A @ apostrophe"] by simp
    then have "tokensOf (A @ apostrophe) = [A @ apostrophe]"
      by (simp add: tokensOf_def split_clean cleanToken_apostrophe)
    then show False using ts by (simp add: apostrophe_def)
  qed
qed

lemma ordered_leftRecursion: "ordered G \<Longrightarrow> ordered (leftRecursion N prods G)"
  by (simp add: leftRecursion_def Let_def ordered_m_put split: prod.splits)

lemma ordered_finalGrammar: "ordered (finalGrammar g)"
proof -
  have "ordered G \<Longrightarrow> ordered (fold (\<lambda>rule newGrammar. leftRecursion (fst rule) (snd rule) newGrammar) F G)"
    for F G :: grammar
    by (induction F arbitrary: G) (simp_all add: ordered_leftRecursion)
  then show ?thesis by (simp add: finalGrammar_def ordered_def)
qed

text \<open>
  The entry that \<open>leftRecursion\<close> stores for the non-terminal it is applied to holds no
  production that begins with it; the rules processed later have greater keys and write
  neither this key nor, as a fresh name, a key below their own.
\<close>

lemma leftRecursion_own_entry:
  "p \<in> set (m_get (leftRecursion A prods G) A) \<Longrightarrow> \<not> beginsWith A p"
proof -
  assume p: "p \<in> set (m_get (leftRecursion A prods G) A)"
  obtain rs ns where part: "partitionProds A prods = (rs, ns)"
    by (cases "partitionProds A prods")
  show ?thesis
  proof (cases "rs = []")
    case True
    then have "p \<in> set prods"
      using p part by (simp add: leftRecursion_def m_get_m_put)
    then show ?thesis using partitionProds_none_recursive [of A prods p] part True by simp
  next
    case False
    have "A \<noteq> A @ apostrophe" by (simp add: apostrophe_def)
    then have "p \<in> set (map (\<lambda>beta. beta @ '' '' @ A @ apostrophe) ns)"
      using p part False by (simp add: leftRecursion_def Let_def m_get_m_put)
    then obtain beta where "beta \<in> set ns" "p = beta @ '' '' @ A @ apostrophe" by auto
    then show ?thesis
      using partitionProds_nonRecursive [of beta A prods] part not_beginsWith_appended by simp
  qed
qed

lemma leftRecursion_other_entry:
  assumes "K \<noteq> A" and "K @ apostrophe \<noteq> A"
  shows "m_get (leftRecursion K prods G) A = m_get G A"
  using assms by (simp add: leftRecursion_def Let_def m_get_m_put split: prod.splits)

lemma later_rules_keep_entry:
  "\<forall>rule\<in>set post. A < fst rule \<Longrightarrow>
     m_get (fold (\<lambda>rule newGrammar. leftRecursion (fst rule) (snd rule) newGrammar) post G) A = m_get G A"
proof (induction post arbitrary: G)
  case Nil
  then show ?case by simp
next
  case (Cons rule post)
  have lt: "A < fst rule" using Cons.prems by simp
  then have 1: "fst rule \<noteq> A" by auto
  have "fst rule < fst rule @ apostrophe" by (rule less_with_apostrophe)
  then have 2: "fst rule @ apostrophe \<noteq> A" using lt by auto
  show ?case
    using Cons leftRecursion_other_entry [OF 1 2] by simp
qed

lemma factored_keys_not_left_recursive:
  assumes "m_has (factoredGrammar g) A" and "p \<in> set (m_get (finalGrammar g) A)"
  shows "\<not> beginsWith A p"
proof -
  define F where "F = factoredGrammar g"
  define step where "step = (\<lambda>(rule :: string \<times> string list) newGrammar.
      leftRecursion (fst rule) (snd rule) newGrammar)"
  obtain prods where "(A, prods) \<in> set F"
    using assms(1) by (auto simp: m_has_def F_def)
  then obtain pre post where F: "F = pre @ (A, prods) # post"
    by (auto dest: split_list)
  have "sorted_wrt (<) (map fst F)"
    using ordered_factoredGrammar [of g] by (simp add: ordered_def F_def)
  then have later: "\<forall>rule\<in>set post. A < fst rule"
    by (simp add: F sorted_wrt_append)
  have "finalGrammar g = fold step post (leftRecursion A prods (fold step pre []))"
    by (simp add: finalGrammar_def F_def [symmetric] step_def [symmetric] F) (simp add: step_def)
  then have "m_get (finalGrammar g) A = m_get (leftRecursion A prods (fold step pre [])) A"
    using later_rules_keep_entry [OF later] by (simp add: step_def)
  then show ?thesis using assms(2) leftRecursion_own_entry by simp
qed

text \<open>
  A key of the final grammar that is not a key of the factored grammar holds only
  productions that \<open>leftRecursion\<close> wrote for a fresh name.
\<close>

lemma leftRecursion_fresh_entry:
  assumes "B \<noteq> K" and "(B, ps) \<in> set F" and "\<forall>p\<in>set (m_get G K). rewrittenFrom F K p"
  shows "\<forall>p\<in>set (m_get (leftRecursion B ps G) K). rewrittenFrom F K p"
proof (cases "B @ apostrophe = K \<and> fst (partitionProds B ps) \<noteq> []")
  case False
  then have "m_get (leftRecursion B ps G) K = m_get G K"
    using assms(1) by (auto simp: leftRecursion_def Let_def m_get_m_put split: prod.splits)
  then show ?thesis using assms(3) by simp
next
  case True
  obtain rs ns where part: "partitionProds B ps = (rs, ns)"
    by (cases "partitionProds B ps")
  have "m_get (leftRecursion B ps G) K = map (\<lambda>alpha. alpha @ '' '' @ K) rs @ [epsilon]"
    using True part by (auto simp: leftRecursion_def Let_def m_get_m_put)
  moreover have "rewrittenFrom F K (alpha @ '' '' @ K)" if "alpha \<in> set rs" for alpha
  proof -
    have "alpha \<in> set (fst (partitionProds B ps))" using that by (simp add: part)
    then obtain q where "q \<in> set ps" "beginsWith B q" "alpha = spaced (tl (tokensOf q))"
      using partitionProds_recursive by blast
    then show ?thesis
      unfolding rewrittenFrom_def using True assms(2) by blast
  qed
  moreover have "rewrittenFrom F K epsilon"
    unfolding rewrittenFrom_def using True by blast
  ultimately show ?thesis by auto
qed

lemma fold_fresh_entry:
  assumes "\<not> m_has F K"
  shows "set F' \<subseteq> set F \<Longrightarrow> \<forall>p\<in>set (m_get G K). rewrittenFrom F K p \<Longrightarrow>
     \<forall>p\<in>set (m_get (fold (\<lambda>rule newGrammar. leftRecursion (fst rule) (snd rule) newGrammar) F' G) K).
        rewrittenFrom F K p"
proof (induction F' arbitrary: G)
  case Nil
  then show ?case by simp
next
  case (Cons rule F')
  have r: "(fst rule, snd rule) \<in> set F" using Cons.prems(1) by simp
  then have "fst rule \<noteq> K" using assms by (force simp: m_has_def)
  then have "\<forall>p\<in>set (m_get (leftRecursion (fst rule) (snd rule) G) K). rewrittenFrom F K p"
    using leftRecursion_fresh_entry [OF _ r Cons.prems(2)] by simp
  then show ?case using Cons.IH Cons.prems(1) by simp
qed

text \<open>
  What one call of \<open>leftRecursion\<close> stores when \<open>A\<close> has at least one production and
  every one of them begins with \<open>A\<close>: the empty list of alternatives for \<open>A\<close>, and for
  \<open>A'\<close> one production per alternative and a last epsilon production; the production
  for an alternative is, as tokens, the alternative without its leading \<open>A\<close>, followed by
  \<open>A'\<close>.
\<close>

lemma leftRecursion_all_recursive:
  assumes "prods \<noteq> []" and "list_all (beginsWith A) prods"
  shows "map_of (leftRecursion A prods newGrammar) A = Some [] \<and>
         map_of (leftRecursion A prods newGrammar) (A @ apostrophe) =
           Some (map (\<lambda>p. spaced (tl (tokensOf p)) @ '' '' @ A @ apostrophe) prods @ [epsilon]) \<and>
         list_all (\<lambda>p. tokensOf (spaced (tl (tokensOf p)) @ '' '' @ A @ apostrophe) =
                     tl (tokensOf p) @ [A @ apostrophe]) prods"
proof -
  have "list_all (\<lambda>p. tokensOf (spaced (tl (tokensOf p)) @ '' '' @ A @ apostrophe) =
                     tl (tokensOf p) @ [A @ apostrophe]) prods"
    using assms(2) tokensOf_rewritten [of A] unfolding list_all_iff by blast
  then show ?thesis
    using assms
    by (simp add: leftRecursion_def partitionProds_all_recursive [OF assms(2)] Let_def
      map_of_m_put apostrophe_def comp_def)
qed

text \<open>
  C10, the failing input. The grammar \<open>S -> S a | S b\<close>: left factoring gives
  \<open>S -> S S'\<close>, \<open>S' -> a | b\<close>, in which the only production of \<open>S\<close> begins with \<open>S\<close>.
  The call of \<open>leftRecursion\<close> for \<open>S\<close> stores no alternative for \<open>S\<close> and the productions
  \<open>S' S'\<close> and epsilon under the name \<open>S'\<close>, which it takes for new; the call for the key
  \<open>S'\<close> of the factored grammar, which comes next, assigns \<open>a | b\<close> to the same entry. In
  the output grammar \<open>S'\<close> holds neither the rewritten production nor the epsilon
  production.
\<close>

theorem fresh_entry_overwritten:
  "readGrammar [''S -> S a | S b''] = ([(''S'', [''S a'', ''S b''])], ''S'') \<and>
   factoredGrammar [(''S'', [''S a'', ''S b''])] =
     [(''S'', [''S S'' @ apostrophe]), (''S'' @ apostrophe, [''a '', ''b ''])] \<and>
   list_all (beginsWith ''S'') [''S S'' @ apostrophe] \<and>
   leftRecursion ''S'' [''S S'' @ apostrophe] [] =
     [(''S'', []),
      (''S'' @ apostrophe, [''S'' @ apostrophe @ ''  S'' @ apostrophe, epsilon])] \<and>
   tokensOf (''S'' @ apostrophe @ ''  S'' @ apostrophe) = [''S'' @ apostrophe, ''S'' @ apostrophe] \<and>
   leftRecursion (''S'' @ apostrophe) [''a '', ''b '']
       [(''S'', []),
        (''S'' @ apostrophe, [''S'' @ apostrophe @ ''  S'' @ apostrophe, epsilon])] =
     [(''S'', []), (''S'' @ apostrophe, [''a '', ''b ''])] \<and>
   finalGrammar [(''S'', [''S a'', ''S b''])] =
     [(''S'', []), (''S'' @ apostrophe, [''a '', ''b ''])]"
  by code_simp

text \<open>
  Without such a collision the entries reach the output grammar: if \<open>A'\<close> is not a key
  of the factored grammar, no later call of the pass writes the entry of \<open>A\<close> or of \<open>A'\<close>.
\<close>

lemma map_of_leftRecursion_other:
  assumes "K \<noteq> X" and "K @ apostrophe \<noteq> X"
  shows "map_of (leftRecursion K prods G) X = map_of G X"
  using assms by (simp add: leftRecursion_def Let_def map_of_m_put split: prod.splits)

lemma later_rules_keep_map_of:
  "\<forall>rule\<in>set post. fst rule \<noteq> X \<and> fst rule @ apostrophe \<noteq> X \<Longrightarrow>
     map_of (fold (\<lambda>rule newGrammar. leftRecursion (fst rule) (snd rule) newGrammar) post G) X =
       map_of G X"
  by (induction post arbitrary: G) (simp_all add: map_of_leftRecursion_other)

lemma all_recursive_in_output:
  assumes "(A, prods) \<in> set (factoredGrammar g)" and "prods \<noteq> []"
    and "list_all (beginsWith A) prods"
    and "\<not> m_has (factoredGrammar g) (A @ apostrophe)"
  shows "map_of (finalGrammar g) A = Some [] \<and>
         map_of (finalGrammar g) (A @ apostrophe) =
           Some (map (\<lambda>p. spaced (tl (tokensOf p)) @ '' '' @ A @ apostrophe) prods @ [epsilon])"
proof -
  define F where "F = factoredGrammar g"
  define step where "step = (\<lambda>(rule :: string \<times> string list) newGrammar.
      leftRecursion (fst rule) (snd rule) newGrammar)"
  obtain pre post where F: "F = pre @ (A, prods) # post"
    using assms(1) unfolding F_def by (auto dest: split_list)
  have "sorted_wrt (<) (map fst F)"
    using ordered_factoredGrammar [of g] by (simp add: ordered_def F_def)
  then have later: "\<forall>rule\<in>set post. A < fst rule"
    by (simp add: F sorted_wrt_append)
  have keys: "\<forall>rule\<in>set post. fst rule \<noteq> A @ apostrophe"
    using assms(4) unfolding F_def [symmetric] F by (force simp: m_has_def)
  have a: "\<forall>rule\<in>set post. fst rule \<noteq> A \<and> fst rule @ apostrophe \<noteq> A"
  proof
    fix rule assume r: "rule \<in> set post"
    have "A < fst rule" using later r by simp
    moreover have "fst rule < fst rule @ apostrophe" by (rule less_with_apostrophe)
    ultimately show "fst rule \<noteq> A \<and> fst rule @ apostrophe \<noteq> A" by auto
  qed
  have b: "\<forall>rule\<in>set post. fst rule \<noteq> A @ apostrophe \<and> fst rule @ apostrophe \<noteq> A @ apostrophe"
    using keys later by auto
  have fin: "finalGrammar g = fold step post (leftRecursion A prods (fold step pre []))"
    by (simp add: finalGrammar_def F_def [symmetric] step_def [symmetric] F) (simp add: step_def)
  have "map_of (finalGrammar g) A = map_of (leftRecursion A prods (fold step pre [])) A"
    unfolding fin step_def by (rule later_rules_keep_map_of [OF a])
  moreover have "map_of (finalGrammar g) (A @ apostrophe) =
      map_of (leftRecursion A prods (fold step pre [])) (A @ apostrophe)"
    unfolding fin step_def by (rule later_rules_keep_map_of [OF b])
  ultimately show ?thesis
    using leftRecursion_all_recursive [OF assms(2,3), of "fold step pre []"] by simp
qed

text \<open>
  C1, the counterexample. The grammar \<open>A -> A | b\<close>: the final grammar is \<open>A -> b A'\<close>,
  \<open>A' -> A' | epsilon\<close>. The first production of the key \<open>A'\<close> is the string of a space
  and \<open>A'\<close>, whose first token is \<open>A'\<close> itself.
\<close>

theorem final_grammar_self_loop:
  "readGrammar [''A -> A | b''] = ([(''A'', [''A'', ''b''])], ''A'') \<and>
   finalGrammar [(''A'', [''A'', ''b''])] =
     [(''A'', [''b A'' @ apostrophe]),
      (''A'' @ apostrophe, ['' A'' @ apostrophe, epsilon])] \<and>
   m_has (finalGrammar [(''A'', [''A'', ''b''])]) (''A'' @ apostrophe) \<and>
   beginsWith (''A'' @ apostrophe) ('' A'' @ apostrophe)"
  by code_simp

text \<open>
  C1, as amended. After the whole pipeline, a production of a key \<open>K\<close> of the final
  grammar begins with \<open>K\<close> only if \<open>K\<close> is not a key of the factored grammar but the fresh
  name \<open>A'\<close> of one of its keys \<open>A\<close>, and some production of \<open>A\<close> in the factored grammar
  is \<open>A\<close> alone or begins with the two tokens \<open>A A'\<close>. In particular no production of a
  key of the factored grammar begins with that key.
\<close>

theorem left_recursion_only_in_fresh:
  assumes "p \<in> set (m_get (finalGrammar g) K)" and "beginsWith K p"
  shows "\<not> m_has (factoredGrammar g) K \<and>
         (\<exists>A q. K = A @ apostrophe \<and> q \<in> set (m_get (factoredGrammar g) A) \<and>
            (tokensOf q = [A] \<or> (\<exists>ts. tokensOf q = A # K # ts)))"
proof -
  have nk: "\<not> m_has (factoredGrammar g) K"
    using factored_keys_not_left_recursive [of g K p] assms by blast
  have "\<forall>p\<in>set (m_get (finalGrammar g) K). rewrittenFrom (factoredGrammar g) K p"
    unfolding finalGrammar_def
    by (rule fold_fresh_entry [OF nk]) (simp_all add: m_get_def)
  then obtain A where K: "K = A @ apostrophe"
    and c: "p = epsilon \<or>
         (\<exists>prods q. (A, prods) \<in> set (factoredGrammar g) \<and> q \<in> set prods \<and> beginsWith A q \<and>
            p = spaced (tl (tokensOf q)) @ '' '' @ K)"
    using assms(1) unfolding rewrittenFrom_def by blast
  have "p \<noteq> epsilon"
    using assms(2) K epsilon_not_fresh [of A] by (auto simp: beginsWith_def tokensOf_epsilon)
  then obtain prods q where q: "(A, prods) \<in> set (factoredGrammar g)" "q \<in> set prods"
      "beginsWith A q" "p = spaced (tl (tokensOf q)) @ '' '' @ K"
    using c by blast
  have e: "m_get (factoredGrammar g) A = prods"
    using ordered_entry [OF ordered_factoredGrammar q(1)] .
  obtain ts where ts: "tokensOf q = A # ts"
    using q(3) by (auto simp: beginsWith_def split: list.splits)
  have "tokensOf p = ts @ [K]"
    using tokensOf_rewritten [OF q(3)] q(4) K ts by simp
  then have "ts = [] \<or> (\<exists>ts'. ts = K # ts')"
    using assms(2) by (cases ts) (auto simp: beginsWith_def)
  then show ?thesis using nk K q(2) e ts by blast
qed

theorem left_recursion_only_in_fresh_witness:
  "\<not> m_has (factoredGrammar [(''A'', [''A'', ''b''])]) (''A'' @ apostrophe) \<and>
   (\<exists>A q. ''A'' @ apostrophe = A @ apostrophe \<and>
      q \<in> set (m_get (factoredGrammar [(''A'', [''A'', ''b''])]) A) \<and>
      (tokensOf q = [A] \<or> (\<exists>ts. tokensOf q = A # (''A'' @ apostrophe) # ts)))"
proof -
  have 1: "'' A'' @ apostrophe \<in> set (m_get (finalGrammar [(''A'', [''A'', ''b''])]) (''A'' @ apostrophe))"
    by code_simp
  have 2: "beginsWith (''A'' @ apostrophe) ('' A'' @ apostrophe)"
    by code_simp
  show ?thesis
    using left_recursion_only_in_fresh [OF 1 2] .
qed

section \<open>The fixed-point loops: growth inside a finite universe\<close>

text \<open>
  Growth is reflexive and transitive, and holds for every insertion of the solvers; a
  pass that sets \<open>changed\<close> uses up some of the slack of a finite universe.
\<close>

lemma grows_refl: "grows U K st st"
  by (simp add: grows_def)

lemma grows_trans:
  assumes "grows U K a b" and "grows U K b c"
  shows "grows U K a c"
proof -
  have ab: "\<And>k. sets_of (fst a) k \<subseteq> sets_of (fst b) k"
    and ab': "\<And>k. sets_of (fst b) k \<subseteq> sets_of (fst a) k \<union> U"
    and abK: "\<And>k. k \<notin> K \<Longrightarrow> sets_of (fst b) k = sets_of (fst a) k"
    and abk: "set (map fst (fst a)) \<subseteq> set (map fst (fst b))"
    and fb: "snd b \<longleftrightarrow> snd a \<or> (\<exists>k. sets_of (fst b) k \<noteq> sets_of (fst a) k)"
    using assms(1) by (simp_all add: grows_def)
  have bc: "\<And>k. sets_of (fst b) k \<subseteq> sets_of (fst c) k"
    and bc': "\<And>k. sets_of (fst c) k \<subseteq> sets_of (fst b) k \<union> U"
    and bcK: "\<And>k. k \<notin> K \<Longrightarrow> sets_of (fst c) k = sets_of (fst b) k"
    and bck: "set (map fst (fst b)) \<subseteq> set (map fst (fst c))"
    and fc: "snd c \<longleftrightarrow> snd b \<or> (\<exists>k. sets_of (fst c) k \<noteq> sets_of (fst b) k)"
    using assms(2) by (simp_all add: grows_def)
  have 1: "\<And>k. sets_of (fst a) k \<subseteq> sets_of (fst c) k"
    using ab bc by (rule subset_trans)
  have 2: "\<And>k. sets_of (fst c) k \<subseteq> sets_of (fst a) k \<union> U"
  proof -
    fix k
    show "sets_of (fst c) k \<subseteq> sets_of (fst a) k \<union> U"
      using ab' [of k] bc' [of k] by (simp add: subset_iff) blast
  qed
  have 3: "\<And>k. k \<notin> K \<Longrightarrow> sets_of (fst c) k = sets_of (fst a) k"
    using abK bcK by simp
  have 4: "set (map fst (fst a)) \<subseteq> set (map fst (fst c))"
    using abk bck by (rule subset_trans)
  have 5: "snd c \<longleftrightarrow> snd a \<or> (\<exists>k. sets_of (fst c) k \<noteq> sets_of (fst a) k)"
  proof
    assume "snd c"
    then consider "snd a" | k where "sets_of (fst b) k \<noteq> sets_of (fst a) k"
      | k where "sets_of (fst c) k \<noteq> sets_of (fst b) k"
      using fb fc by blast
    then show "snd a \<or> (\<exists>k. sets_of (fst c) k \<noteq> sets_of (fst a) k)"
    proof cases
      case 1 then show ?thesis by simp
    next
      case 2
      then have "sets_of (fst c) k \<noteq> sets_of (fst a) k" using ab [of k] bc [of k] by blast
      then show ?thesis by blast
    next
      case 3
      then have "sets_of (fst c) k \<noteq> sets_of (fst a) k" using ab [of k] bc [of k] by blast
      then show ?thesis by blast
    qed
  next
    assume r: "snd a \<or> (\<exists>k. sets_of (fst c) k \<noteq> sets_of (fst a) k)"
    show "snd c"
    proof (rule ccontr)
      assume "\<not> snd c"
      then have "\<not> snd b" and "\<forall>k. sets_of (fst c) k = sets_of (fst b) k" using fc by blast+
      then have "\<not> snd a" and "\<forall>k. sets_of (fst c) k = sets_of (fst a) k" using fb by auto
      with r show False by blast
    qed
  qed
  show ?thesis
    unfolding grows_def using 1 2 3 4 5 by blast
qed

lemma grows_within:
  "grows U K st st' \<Longrightarrow> within U (fst st) \<Longrightarrow> within U (fst st')"
  unfolding grows_def within_def by blast

lemma grows_fold:
  assumes "\<And>x st. x \<in> set xs \<Longrightarrow> within U (fst st) \<Longrightarrow> grows U K st (f x st)"
    and "within U (fst st)"
  shows "grows U K st (fold f xs st)"
  using assms
proof (induction xs arbitrary: st)
  case Nil
  then show ?case by (simp add: grows_refl)
next
  case (Cons x xs)
  have 1: "grows U K st (f x st)" using Cons.prems by simp
  then have "within U (fst (f x st))" using Cons.prems(2) grows_within by blast
  then have "grows U K (f x st) (fold f xs (f x st))"
    using Cons.IH Cons.prems(1) by simp
  then show ?case using grows_trans [OF 1] by simp
qed

lemma set_s_insert: "set (fst (s_insert x s)) = insert x (set s)"
  by (simp add: s_insert_def set_insort_key insert_absorb)

lemma snd_s_insert: "snd (s_insert x s) \<longleftrightarrow> x \<notin> set s"
  by (simp add: s_insert_def)

lemma sets_of_s_add:
  "sets_of (fst (s_add X x st)) k = (if k = X then insert x (sets_of (fst st) X) else sets_of (fst st) k)"
  by (simp add: s_add_def sets_of_def m_get_m_put split_beta set_s_insert)

lemma snd_s_add: "snd (s_add X x st) \<longleftrightarrow> snd st \<or> x \<notin> sets_of (fst st) X"
  by (simp add: s_add_def sets_of_def split_beta snd_s_insert)

lemma keys_s_add: "set (map fst (fst (s_add X x st))) = insert X (set (map fst (fst st)))"
  unfolding s_add_def split_beta Let_def fst_conv keys_m_put ..

lemma grows_s_add:
  assumes "X \<in> K" and "x \<in> U"
  shows "grows U K st (s_add X x st)"
  unfolding grows_def sets_of_s_add snd_s_add keys_s_add using assms by auto

lemma grows_s_add_noeps:
  assumes "X \<in> K" and "set syms - {epsilon} \<subseteq> U"
  shows "grows U K st (s_add_noeps X syms st)"
  unfolding s_add_noeps_def
  using assms(2)
proof (induction syms arbitrary: st)
  case Nil
  then show ?case by (simp add: grows_refl)
next
  case (Cons sym syms)
  define st1 where "st1 = (if sym \<noteq> epsilon then s_add X sym st else st)"
  have 1: "grows U K st st1"
  proof (cases "sym = epsilon")
    case True
    then show ?thesis by (simp add: st1_def grows_refl)
  next
    case False
    then have "sym \<in> U" using Cons.prems by auto
    then show ?thesis using False by (simp add: st1_def grows_s_add [OF assms(1)])
  qed
  have "set syms - {epsilon} \<subseteq> U" using Cons.prems by auto
  then have 2: "grows U K st1 (fold (\<lambda>sym st. if sym \<noteq> epsilon then s_add X sym st else st) syms st1)"
    by (rule Cons.IH)
  have "fold (\<lambda>sym st. if sym \<noteq> epsilon then s_add X sym st else st) (sym # syms) st =
      fold (\<lambda>sym st. if sym \<noteq> epsilon then s_add X sym st else st) syms st1"
    by (simp add: st1_def)
  then show ?case using grows_trans [OF 1 2] by simp
qed

lemma slack_decreases:
  assumes g: "grows U K (m, False) (m', True)" and w: "within U m"
    and fU: "finite U" and fK: "finite K"
  shows "slack U K m' < slack U K m"
proof -
  have mono: "\<And>k. sets_of m k \<subseteq> sets_of m' k" using g unfolding grows_def by simp
  have w': "within U m'" using grows_within [OF g] w by simp
  obtain k where k: "sets_of m' k \<noteq> sets_of m k"
    using g unfolding grows_def by auto
  have kK: "k \<in> K" using g k unfolding grows_def by auto
  have "sets_of m k \<subset> sets_of m' k" using k mono [of k] by blast
  moreover have "sets_of m' k \<subseteq> U" using w' unfolding within_def by simp
  ultimately have "U - sets_of m' k \<subset> U - sets_of m k" by blast
  then have lt: "card (U - sets_of m' k) < card (U - sets_of m k)"
    using fU by (simp add: psubset_card_mono)
  have le: "\<And>j. j \<in> K \<Longrightarrow> card (U - sets_of m' j) \<le> card (U - sets_of m j)"
    using mono fU by (simp add: card_mono Diff_mono)
  show ?thesis
    unfolding slack_def
    by (rule sum_strict_mono_ex1 [OF fK]) (use le lt kK in auto)
qed

lemma finite_allTokens: "finite (allTokens g)"
  by (simp add: allTokens_def)

lemma grows_firstScan:
  assumes X: "X \<in> K" and eps: "epsilon \<in> U"
  shows "\<forall>t\<in>set tokens. \<not> m_has g t \<longrightarrow> t \<in> U \<Longrightarrow> within U (fst st) \<Longrightarrow>
         grows U K st (firstScan g X tokens st)"
proof (induction tokens arbitrary: st)
  case Nil
  then show ?case by (simp add: grows_s_add [OF X eps])
next
  case (Cons token tokens)
  show ?case
  proof (cases "token = epsilon")
    case True
    then show ?thesis by (simp add: grows_s_add [OF X eps])
  next
    case ne: False
    show ?thesis
    proof (cases "m_has g token")
      case False
      then have "token \<in> U" using Cons.prems(1) by simp
      then show ?thesis using ne False by (simp add: grows_s_add [OF X])
    next
      case True
      define st1 where "st1 = s_add_noeps X (m_get (fst st) token) st"
      have "set (m_get (fst st) token) \<subseteq> U"
        using Cons.prems(2) by (simp add: within_def sets_of_def)
      then have 1: "grows U K st st1"
        unfolding st1_def by (intro grows_s_add_noeps [OF X]) blast
      have w1: "within U (fst st1)"
        using grows_within [OF 1 Cons.prems(2)] .
      show ?thesis
      proof (cases "epsilon \<in> set (m_get (fst st1) token)")
        case False
        then show ?thesis using ne True 1 by (simp add: st1_def Let_def)
      next
        case e: True
        have "grows U K st1 (firstScan g X tokens st1)"
          using Cons.IH [OF _ w1] Cons.prems(1) by simp
        then have "grows U K st (firstScan g X tokens st1)"
          using grows_trans [OF 1] by simp
        then show ?thesis using ne True e by (simp add: st1_def Let_def)
      qed
    qed
  qed
qed

lemma grows_firstProd:
  assumes "X \<in> K" and "epsilon \<in> U" and "\<forall>t\<in>set (tokensOf prd). \<not> m_has g t \<longrightarrow> t \<in> U"
    and "within U (fst st)"
  shows "grows U K st (firstProd g X prd st)"
  using grows_firstScan [OF assms(1,2), of "tokensOf prd" g st] assms(3,4)
  by (simp add: firstProd_def Let_def grows_refl tokensOf_def)

lemma terminalsIn_prod:
  "terminalsIn g U \<Longrightarrow> rule \<in> set g \<Longrightarrow> prd \<in> set (snd rule) \<Longrightarrow>
     \<forall>t\<in>set (tokensOf prd). \<not> m_has g t \<longrightarrow> t \<in> U"
  unfolding terminalsIn_def allTokens_def by blast

lemma grows_firstRule:
  assumes "epsilon \<in> U" and "terminalsIn g U" and "rule \<in> set g" and "within U (fst st)"
  shows "grows U (set (map fst g)) st (firstRule g rule st)"
  unfolding firstRule_def
proof (rule grows_fold [OF _ assms(4)])
  fix prd and st' :: "sset smap \<times> bool"
  assume p: "prd \<in> set (snd rule)" and w: "within U (fst st')"
  have "fst rule \<in> set (map fst g)" using assms(3) by simp
  then show "grows U (set (map fst g)) st' (firstProd g (fst rule) prd st')"
    using grows_firstProd [OF _ assms(1) terminalsIn_prod [OF assms(2,3) p] w] by blast
qed

lemma grows_firstPass:
  assumes "epsilon \<in> U" and "terminalsIn g U" and "within U first"
  shows "grows U (set (map fst g)) (first, False) (firstPass g first)"
  unfolding firstPass_def
proof (rule grows_fold)
  show "within U (fst (first, False))" using assms(3) by simp
next
  fix rule and st :: "sset smap \<times> bool"
  assume "rule \<in> set g" and "within U (fst st)"
  then show "grows U (set (map fst g)) st (firstRule g rule st)"
    by (rule grows_firstRule [OF assms(1,2)])
qed

lemma firstLoop_total:
  assumes fin: "finite U" and eps: "epsilon \<in> U" and ter: "terminalsIn g U"
  shows "within U m \<Longrightarrow>
     \<exists>r. firstLoop g m = Some r \<and> within U r \<and> (\<forall>k. sets_of m k \<subseteq> sets_of r k) \<and>
         set (map fst m) \<subseteq> set (map fst r) \<and> (\<exists>m0. firstPass g m0 = (r, False)) \<and>
         (\<forall>k. sets_of (fst (firstPass g m)) k \<subseteq> sets_of r k)"
proof (induction "slack U (set (map fst g)) m" arbitrary: m rule: less_induct)
  case less
  obtain m' c where p: "firstPass g m = (m', c)"
    by (cases "firstPass g m")
  have gr: "grows U (set (map fst g)) (m, False) (m', c)"
    using grows_firstPass [OF eps ter less.prems] p by simp
  have w': "within U m'"
    using grows_within [OF gr] less.prems by simp
  have mono: "\<And>k. sets_of m k \<subseteq> sets_of m' k" and keys: "set (map fst m) \<subseteq> set (map fst m')"
    using gr by (simp_all add: grows_def)
  show ?case
  proof (cases c)
    case False
    then have "firstLoop g m = Some m'"
      using p by (simp add: firstLoop.simps [of g m])
    moreover have "\<exists>m0. firstPass g m0 = (m', False)"
      using p False by auto
    moreover have "\<forall>k. sets_of (fst (firstPass g m)) k \<subseteq> sets_of m' k"
      using p by simp
    ultimately show ?thesis using w' mono keys by blast
  next
    case True
    then have "slack U (set (map fst g)) m' < slack U (set (map fst g)) m"
      using slack_decreases [of U "set (map fst g)" m m'] gr less.prems fin by simp
    then obtain r where r: "firstLoop g m' = Some r" "within U r"
        "\<And>k. sets_of m' k \<subseteq> sets_of r k" "set (map fst m') \<subseteq> set (map fst r)"
        "\<exists>m0. firstPass g m0 = (r, False)"
      using less.hyps [OF _ w'] by blast
    have "firstLoop g m = Some r"
      using p True r(1) by (simp add: firstLoop.simps [of g m])
    moreover have "\<And>k. sets_of m k \<subseteq> sets_of r k"
      using mono r(3) by (rule subset_trans)
    moreover have "set (map fst m) \<subseteq> set (map fst r)"
      using keys r(4) by (rule subset_trans)
    moreover have "\<forall>k. sets_of (fst (firstPass g m)) k \<subseteq> sets_of r k"
      using p r(3) by simp
    ultimately show ?thesis using r(2,5) by blast
  qed
qed

lemma emptySets_fold:
  "m_get (fold (\<lambda>rule m. m_put (fst rule) [] m) g m) k = m_get m k \<and>
   set (map fst (fold (\<lambda>rule m. m_put (fst rule) [] m) g m)) = set (map fst g) \<union> set (map fst m)"
  if "\<forall>k. m_get m k = []"
  using that
proof (induction g arbitrary: m)
  case Nil
  then show ?case by simp
next
  case (Cons rule g)
  have e: "\<forall>k. m_get (m_put (fst rule) [] m) k = []"
    using Cons.prems by (simp add: m_get_m_put)
  have "m_get (m_put (fst rule) [] m) k = m_get m k"
    using Cons.prems e by simp
  moreover have "set (map fst (m_put (fst rule) [] m)) = insert (fst rule) (set (map fst m))"
    by (rule keys_m_put)
  ultimately show ?case using Cons.IH [OF e] by (simp del: set_map)
qed

lemma m_get_nil: "\<forall>k. m_get ([]::sset smap) k = []"
  by (simp add: m_get_def)

lemma m_get_emptySets: "m_get (emptySets g) k = []"
  using emptySets_fold [OF m_get_nil, of g k] m_get_nil by (simp add: emptySets_def)

lemma keys_emptySets: "set (map fst (emptySets g)) = set (map fst g)"
  using emptySets_fold [OF m_get_nil, of g] by (simp add: emptySets_def)

lemma firstSet_total:
  "\<exists>first. firstSet g = Some first \<and>
     (\<forall>k. sets_of first k \<subseteq> insert epsilon (allTokens g) \<inter> {x. x = epsilon \<or> \<not> m_has g x}) \<and>
     set (map fst g) \<subseteq> set (map fst first) \<and> (\<exists>m0. firstPass g m0 = (first, False)) \<and>
     (\<forall>k. sets_of (fst (firstPass g (emptySets g))) k \<subseteq> sets_of first k)"
proof -
  define U where "U = insert epsilon (allTokens g) \<inter> {x. x = epsilon \<or> \<not> m_has g x}"
  have fin: "finite U" by (simp add: U_def finite_allTokens)
  have eps: "epsilon \<in> U" by (simp add: U_def)
  have ter: "terminalsIn g U" by (simp add: U_def terminalsIn_def)
  have w: "within U (emptySets g)" by (simp add: within_def sets_of_def m_get_emptySets)
  obtain r where "firstLoop g (emptySets g) = Some r" "within U r"
      "set (map fst (emptySets g)) \<subseteq> set (map fst r)" "\<exists>m0. firstPass g m0 = (r, False)"
      "\<forall>k. sets_of (fst (firstPass g (emptySets g))) k \<subseteq> sets_of r k"
    using firstLoop_total [OF fin eps ter w] by blast
  then show ?thesis
    unfolding firstSet_def keys_emptySets within_def U_def by blast
qed

lemma afterNT_subset: "afterNT g tokens \<subseteq> set tokens"
  by (induction tokens) auto

lemma m_at_Inr: "m_at m k = Inr v \<longleftrightarrow> map_of m k = Some v"
  by (simp add: m_at_def split: option.splits)

lemma m_at_Inl: "m_at m k = Inl e \<Longrightarrow> \<not> m_has m k"
  by (auto simp: m_at_def m_has_def map_of_eq_None_iff split: option.splits)

lemma grows_followScan:
  assumes B: "B \<in> K" and fi: "firstIn first U"
  shows "\<forall>t\<in>set rest. \<not> m_has g t \<longrightarrow> t \<in> U \<Longrightarrow>
         followScan g first B rest st a = Inr (st', a') \<Longrightarrow> grows U K st st'"
proof (induction rest arbitrary: st a)
  case Nil
  then show ?case by (simp add: grows_refl)
next
  case (Cons beta rest)
  show ?case
  proof (cases "m_has g beta")
    case False
    then have "beta \<in> U" using Cons.prems(1) by simp
    moreover have "st' = s_add B beta st" using Cons.prems(2) False by simp
    ultimately show ?thesis by (simp add: grows_s_add [OF B])
  next
    case True
    then obtain fb where fb: "m_at first beta = Inr fb"
      using Cons.prems(2) by (cases "m_at first beta") simp_all
    define st1 where "st1 = s_add_noeps B fb st"
    have "set fb - {epsilon} \<subseteq> U"
      using fi fb by (simp add: firstIn_def m_at_Inr)
    then have 1: "grows U K st st1"
      unfolding st1_def by (rule grows_s_add_noeps [OF B])
    show ?thesis
    proof (cases "epsilon \<in> set fb")
      case False
      then have "st' = st1" using Cons.prems(2) True fb by (simp add: st1_def)
      then show ?thesis using 1 by simp
    next
      case e: True
      have "followScan g first B rest st1 (a \<or> rest = []) = Inr (st', a')"
        using Cons.prems(2) True fb e by (simp add: st1_def)
      then have "grows U K st1 st'"
        using Cons.IH Cons.prems(1) by simp
      then show ?thesis using grows_trans [OF 1] by simp
    qed
  qed
qed

lemma grows_add_all:
  assumes "B \<in> K" and "set syms \<subseteq> U"
  shows "grows U K st (fold (s_add B) syms st)"
  using assms(2)
proof (induction syms arbitrary: st)
  case Nil
  then show ?case by (simp add: grows_refl)
next
  case (Cons sym syms)
  have 1: "grows U K st (s_add B sym st)"
    using Cons.prems by (simp add: grows_s_add [OF assms(1)])
  have 2: "grows U K (s_add B sym st) (fold (s_add B) syms (s_add B sym st))"
    using Cons by simp
  show ?case using grows_trans [OF 1 2] by simp
qed

lemma grows_followTokens:
  assumes fi: "firstIn first U"
  shows "\<forall>t\<in>afterNT g tokens. \<not> m_has g t \<longrightarrow> t \<in> U \<Longrightarrow> within U (fst st) \<Longrightarrow>
         followTokens g first A tokens st = Inr st' \<Longrightarrow> grows U (set (map fst g)) st st'"
proof (induction tokens arbitrary: st)
  case Nil
  then show ?case by (simp add: grows_refl)
next
  case (Cons B rest)
  show ?case
  proof (cases "m_has g B")
    case False
    then show ?thesis using Cons by simp
  next
    case True
    then have BK: "B \<in> set (map fst g)" by (simp add: m_has_def)
    obtain st1 a where sc: "followScan g first B rest st False = Inr (st1, a)"
      using Cons.prems(3) True by (cases "followScan g first B rest st False") auto
    have rest: "\<forall>t\<in>set rest. \<not> m_has g t \<longrightarrow> t \<in> U"
      using Cons.prems(1) True by simp
    have 1: "grows U (set (map fst g)) st st1"
      using grows_followScan [OF BK fi rest sc] .
    have w1: "within U (fst st1)"
      using grows_within [OF 1 Cons.prems(2)] .
    define st2 where "st2 = (if a then fold (s_add B) (m_get (fst st1) A) st1 else st1)"
    have "set (m_get (fst st1) A) \<subseteq> U"
      using w1 by (simp add: within_def sets_of_def)
    then have "grows U (set (map fst g)) st1 (fold (s_add B) (m_get (fst st1) A) st1)"
      by (rule grows_add_all [OF BK])
    then have 2: "grows U (set (map fst g)) st1 st2"
      unfolding st2_def using grows_refl [of U "set (map fst g)" st1] by (simp del: set_map)
    have w2: "within U (fst st2)"
      using grows_within [OF 2 w1] .
    have "followTokens g first A rest st2 = Inr st'"
      using Cons.prems(3) True sc by (simp add: st2_def)
    moreover have "\<forall>t\<in>afterNT g rest. \<not> m_has g t \<longrightarrow> t \<in> U"
      using rest afterNT_subset [of g rest] by blast
    ultimately have 3: "grows U (set (map fst g)) st2 st'"
      using Cons.IH w2 by simp
    show ?thesis using grows_trans [OF grows_trans [OF 1 2] 3] .
  qed
qed

lemma grows_followProds:
  assumes fi: "firstIn first U"
  shows "\<forall>p\<in>set prods. \<forall>t\<in>afterNT g (tokensOf p). \<not> m_has g t \<longrightarrow> t \<in> U \<Longrightarrow>
         within U (fst st) \<Longrightarrow>
         followProds g first A prods st = Inr st' \<Longrightarrow> grows U (set (map fst g)) st st'"
proof (induction prods arbitrary: st)
  case Nil
  then show ?case by (simp add: grows_refl)
next
  case (Cons p prods)
  obtain st1 where t: "followTokens g first A (tokensOf p) st = Inr st1"
    using Cons.prems(3) by (cases "followTokens g first A (tokensOf p) st") (simp_all add: tokensOf_def)
  have 1: "grows U (set (map fst g)) st st1"
    using grows_followTokens [OF fi _ Cons.prems(2) t] Cons.prems(1) by simp
  have w1: "within U (fst st1)"
    using grows_within [OF 1 Cons.prems(2)] .
  have "followProds g first A prods st1 = Inr st'"
    using Cons.prems(3) t by (simp add: tokensOf_def)
  then have 2: "grows U (set (map fst g)) st1 st'"
    using Cons.IH w1 Cons.prems(1) by simp
  show ?case using grows_trans [OF 1 2] .
qed

lemma grows_followRules:
  assumes fi: "firstIn first U"
  shows "\<forall>rule\<in>set rules. \<forall>p\<in>set (snd rule). \<forall>t\<in>afterNT g (tokensOf p). \<not> m_has g t \<longrightarrow> t \<in> U \<Longrightarrow>
         within U (fst st) \<Longrightarrow>
         followRules g first rules st = Inr st' \<Longrightarrow> grows U (set (map fst g)) st st'"
proof (induction rules arbitrary: st)
  case Nil
  then show ?case by (simp add: grows_refl)
next
  case (Cons rule rules)
  obtain st1 where t: "followProds g first (fst rule) (snd rule) st = Inr st1"
    using Cons.prems(3) by (cases "followProds g first (fst rule) (snd rule) st") simp_all
  have 1: "grows U (set (map fst g)) st st1"
    using grows_followProds [OF fi _ Cons.prems(2) t] Cons.prems(1) by simp
  have w1: "within U (fst st1)"
    using grows_within [OF 1 Cons.prems(2)] .
  have "followRules g first rules st1 = Inr st'"
    using Cons.prems(3) t by simp
  then have 2: "grows U (set (map fst g)) st1 st'"
    using Cons.IH w1 Cons.prems(1) by simp
  show ?case using grows_trans [OF 1 2] .
qed

lemma grows_followPass:
  assumes "firstIn first U" and "followersIn g U" and "within U follow"
    and "followPass g first follow = Inr st'"
  shows "grows U (set (map fst g)) (follow, False) st'"
  using grows_followRules [OF assms(1), of g g "(follow, False)" st'] assms(2,3,4)
  by (simp add: followPass_def followersIn_def)

text \<open>The pass fails only on a grammar key that the FIRST map lacks.\<close>

lemma followScan_Inl:
  "followScan g first B rest st a = Inl e \<Longrightarrow> \<not> keysCovered g first"
proof (induction rest arbitrary: st a)
  case Nil
  then show ?case by simp
next
  case (Cons beta rest)
  show ?case
  proof (cases "m_has g beta")
    case False
    then show ?thesis using Cons.prems by simp
  next
    case True
    show ?thesis
    proof (cases "m_at first beta")
      case (Inl e')
      then show ?thesis using True m_at_Inl [OF Inl] by (auto simp: keysCovered_def m_has_def)
    next
      case (Inr fb)
      then show ?thesis using Cons True by (simp add: Let_def split: if_splits)
    qed
  qed
qed

lemma followTokens_Inl:
  "followTokens g first A tokens st = Inl e \<Longrightarrow> \<not> keysCovered g first"
proof (induction tokens arbitrary: st)
  case Nil
  then show ?case by simp
next
  case (Cons B rest)
  show ?case
  proof (cases "m_has g B")
    case False
    then show ?thesis using Cons by simp
  next
    case True
    show ?thesis
    proof (cases "followScan g first B rest st False")
      case (Inl e')
      then show ?thesis using followScan_Inl by simp
    next
      case (Inr r)
      then show ?thesis using Cons True by (cases r) simp
    qed
  qed
qed

lemma followProds_Inl:
  "followProds g first A prods st = Inl e \<Longrightarrow> \<not> keysCovered g first"
proof (induction prods arbitrary: st)
  case Nil
  then show ?case by simp
next
  case (Cons p prods)
  then show ?case
    by (cases "followTokens g first A (split p CHR '' '') st") (simp_all add: followTokens_Inl)
qed

lemma followRules_Inl:
  "followRules g first rules st = Inl e \<Longrightarrow> \<not> keysCovered g first"
proof (induction rules arbitrary: st)
  case Nil
  then show ?case by simp
next
  case (Cons rule rules)
  then show ?case
    by (cases "followProds g first (fst rule) (snd rule) st") (simp_all add: followProds_Inl)
qed

lemma followLoop_total:
  assumes fin: "finite U" and fo: "followersIn g U" and fi: "firstIn first U"
  shows "within U m \<Longrightarrow>
     \<exists>r. followLoop g first m = Some r \<and>
       (case r of
          Inl e \<Rightarrow> \<not> keysCovered g first
        | Inr f \<Rightarrow> within U f \<and> (\<forall>k. sets_of m k \<subseteq> sets_of f k) \<and>
            set (map fst m) \<subseteq> set (map fst f) \<and> (\<exists>m0. followPass g first m0 = Inr (f, False)))"
proof (induction "slack U (set (map fst g)) m" arbitrary: m rule: less_induct)
  case less
  show ?case
  proof (cases "followPass g first m")
    case (Inl e)
    then have "followLoop g first m = Some (Inl e)"
      by (simp add: followLoop.simps [of g first m])
    moreover have "\<not> keysCovered g first"
      using Inl followRules_Inl by (simp add: followPass_def)
    ultimately show ?thesis by simp
  next
    case (Inr st')
    obtain m' c where st': "st' = (m', c)" by (cases st')
    have gr: "grows U (set (map fst g)) (m, False) (m', c)"
      using grows_followPass [OF fi fo less.prems Inr] st' by simp
    have w': "within U m'"
      using grows_within [OF gr] less.prems by simp
    have mono: "\<And>k. sets_of m k \<subseteq> sets_of m' k" and keys: "set (map fst m) \<subseteq> set (map fst m')"
      using gr by (simp_all add: grows_def)
    show ?thesis
    proof (cases c)
      case False
      then have "followLoop g first m = Some (Inr m')"
        using Inr st' by (simp add: followLoop.simps [of g first m])
      moreover have "\<exists>m0. followPass g first m0 = Inr (m', False)"
        using Inr st' False by auto
      ultimately show ?thesis using w' mono keys by simp
    next
      case True
      then have "slack U (set (map fst g)) m' < slack U (set (map fst g)) m"
        using slack_decreases [of U "set (map fst g)" m m'] gr less.prems fin by simp
      then obtain r where r: "followLoop g first m' = Some r"
          "(case r of
              Inl e \<Rightarrow> \<not> keysCovered g first
            | Inr f \<Rightarrow> within U f \<and> (\<forall>k. sets_of m' k \<subseteq> sets_of f k) \<and>
                set (map fst m') \<subseteq> set (map fst f) \<and>
                (\<exists>m0. followPass g first m0 = Inr (f, False)))"
        using less.hyps [OF _ w'] by blast
      have l: "followLoop g first m = Some r"
        using Inr st' True r(1) by (simp add: followLoop.simps [of g first m])
      show ?thesis
      proof (cases r)
        case (Inl e)
        then show ?thesis using l r(2) by simp
      next
        case (Inr f)
        then have "within U f" "\<And>k. sets_of m' k \<subseteq> sets_of f k" "set (map fst m') \<subseteq> set (map fst f)"
            "\<exists>m0. followPass g first m0 = Inr (f, False)"
          using r(2) by simp_all
        moreover have "\<And>k. sets_of m k \<subseteq> sets_of f k"
          using mono calculation(2) by (rule subset_trans)
        moreover have "set (map fst m) \<subseteq> set (map fst f)"
          using keys calculation(3) by (rule subset_trans)
        ultimately show ?thesis using l Inr by simp
      qed
    qed
  qed
qed

lemma sets_of_initFollow:
  "sets_of (initFollow g s) k = (if k = s then {endMarker} else {})"
  by (simp add: initFollow_def Let_def sets_of_def m_get_m_put m_get_emptySets set_s_insert)

section \<open>Termination and results of the solvers\<close>

lemma firstSet_covers:
  "\<exists>first. firstSet g = Some first \<and> keysCovered g first \<and>
     (\<forall>k. set (m_get first k) \<subseteq> insert epsilon (allTokens g)) \<and>
     firstIn first (allTokens g \<inter> {x. \<not> m_has g x \<and> x \<noteq> epsilon}) \<and>
     (\<exists>m0. firstPass g m0 = (first, False)) \<and>
     (\<forall>k. set (m_get (fst (firstPass g (emptySets g))) k) \<subseteq> set (m_get first k))"
proof -
  obtain first where f: "firstSet g = Some first"
      "\<And>k. sets_of first k \<subseteq> insert epsilon (allTokens g) \<inter> {x. x = epsilon \<or> \<not> m_has g x}"
      "set (map fst g) \<subseteq> set (map fst first)" "\<exists>m0. firstPass g m0 = (first, False)"
      "\<forall>k. sets_of (fst (firstPass g (emptySets g))) k \<subseteq> sets_of first k"
    using firstSet_total [of g] by blast
  have "firstIn first (allTokens g \<inter> {x. \<not> m_has g x \<and> x \<noteq> epsilon})"
    unfolding firstIn_def
  proof (intro allI impI)
    fix k fb assume "map_of first k = Some fb"
    then have "set fb = sets_of first k" by (simp add: sets_of_def m_get_def)
    then show "set fb - {epsilon} \<subseteq> allTokens g \<inter> {x. \<not> m_has g x \<and> x \<noteq> epsilon}"
      using f(2) [of k] by auto
  qed
  moreover have "\<And>k. set (m_get first k) \<subseteq> insert epsilon (allTokens g)"
    using f(2) by (auto simp: sets_of_def)
  moreover have "\<forall>k. set (m_get (fst (firstPass g (emptySets g))) k) \<subseteq> set (m_get first k)"
    using f(5) by (simp add: sets_of_def)
  ultimately show ?thesis using f(1,3,4) by (simp add: keysCovered_def)
qed

lemma contents_bound: "map_of m k = Some v \<Longrightarrow> set v \<subseteq> \<Union> (set ` snd ` set m)"
  by (auto dest!: map_of_SomeD intro!: bexI)

lemma followersIn_allTokens: "allTokens g \<subseteq> U \<Longrightarrow> followersIn g U"
  unfolding followersIn_def allTokens_def using afterNT_subset by fastforce

lemma computeFollowSets_total:
  "\<exists>r. computeFollowSets g first s = Some r \<and>
     (case r of
        Inl e \<Rightarrow> \<not> keysCovered g first
      | Inr follow \<Rightarrow>
          (\<forall>k. set (m_get (initFollow g s) k) \<subseteq> set (m_get follow k)) \<and>
          (\<forall>k. set (m_get follow k) \<subseteq> insert endMarker (allTokens g) \<union> \<Union> (set ` snd ` set first)) \<and>
          (\<exists>m0. followPass g first m0 = Inr (follow, False)))"
proof -
  define U where "U = insert endMarker (allTokens g) \<union> \<Union> (set ` snd ` set first)"
  have fin: "finite U" by (simp add: U_def finite_allTokens)
  have fo: "followersIn g U" by (rule followersIn_allTokens) (auto simp: U_def)
  have fi: "firstIn first U"
    unfolding firstIn_def U_def using contents_bound [of first] by blast
  have w: "within U (initFollow g s)"
    by (simp add: within_def sets_of_initFollow U_def)
  obtain r where r: "followLoop g first (initFollow g s) = Some r"
     "(case r of
          Inl e \<Rightarrow> \<not> keysCovered g first
        | Inr f \<Rightarrow> within U f \<and> (\<forall>k. sets_of (initFollow g s) k \<subseteq> sets_of f k) \<and>
            set (map fst (initFollow g s)) \<subseteq> set (map fst f) \<and>
            (\<exists>m0. followPass g first m0 = Inr (f, False)))"
    using followLoop_total [OF fin fo fi w] by blast
  show ?thesis
  proof (cases r)
    case (Inl e)
    then show ?thesis using r by (simp add: computeFollowSets_def)
  next
    case (Inr f)
    then show ?thesis using r
      by (simp add: computeFollowSets_def within_def sets_of_def U_def)
  qed
qed

lemma firstPass_monotone:
  "(\<forall>k. set (m_get m k) \<subseteq> set (m_get (fst (firstPass g m)) k)) \<and>
   (snd (firstPass g m) \<longleftrightarrow> (\<exists>k. set (m_get (fst (firstPass g m)) k) \<noteq> set (m_get m k)))"
proof -
  have "grows UNIV (set (map fst g)) (m, False) (firstPass g m)"
    by (rule grows_firstPass) (simp_all add: terminalsIn_def within_def)
  then show ?thesis by (simp add: grows_def sets_of_def)
qed

lemma followPass_monotone:
  "(case followPass g first m of
      Inl e \<Rightarrow> \<not> keysCovered g first
    | Inr st \<Rightarrow>
        (\<forall>k. set (m_get m k) \<subseteq> set (m_get (fst st) k)) \<and>
        (snd st \<longleftrightarrow> (\<exists>k. set (m_get (fst st) k) \<noteq> set (m_get m k))))"
proof (cases "followPass g first m")
  case (Inl e)
  then show ?thesis using followRules_Inl by (simp add: followPass_def)
next
  case (Inr st)
  have "grows UNIV (set (map fst g)) (m, False) st"
    by (rule grows_followPass [OF _ _ _ Inr]) (simp_all add: firstIn_def followersIn_def within_def)
  then show ?thesis using Inr by (simp add: grows_def sets_of_def)
qed

lemma pipeline_sets_total:
  "\<exists>first. firstSet g = Some first \<and> (\<exists>m0. firstPass g m0 = (first, False)) \<and>
     (\<forall>k. set (m_get first k) \<subseteq> insert epsilon (allTokens g)) \<and>
     (\<exists>follow. computeFollowSets g first s = Some (Inr follow) \<and>
        (\<exists>m0. followPass g first m0 = Inr (follow, False)) \<and>
        (\<forall>k. set (m_get follow k) \<subseteq> insert endMarker (allTokens g)))"
proof -
  define U where "U = insert endMarker (allTokens g)"
  obtain first where f: "firstSet g = Some first" "keysCovered g first"
      "\<forall>k. set (m_get first k) \<subseteq> insert epsilon (allTokens g)"
      "firstIn first (allTokens g \<inter> {x. \<not> m_has g x \<and> x \<noteq> epsilon})"
      "\<exists>m0. firstPass g m0 = (first, False)"
    using firstSet_covers [of g] by blast
  have fin: "finite U" by (simp add: U_def finite_allTokens)
  have fo: "followersIn g U" by (rule followersIn_allTokens) (auto simp: U_def)
  have fi: "firstIn first U"
    using f(4) unfolding firstIn_def U_def by blast
  have w: "within U (initFollow g s)"
    by (simp add: within_def sets_of_initFollow U_def)
  obtain r where r: "followLoop g first (initFollow g s) = Some r"
     "(case r of
          Inl e \<Rightarrow> \<not> keysCovered g first
        | Inr f \<Rightarrow> within U f \<and> (\<forall>k. sets_of (initFollow g s) k \<subseteq> sets_of f k) \<and>
            set (map fst (initFollow g s)) \<subseteq> set (map fst f) \<and>
            (\<exists>m0. followPass g first m0 = Inr (f, False)))"
    using followLoop_total [OF fin fo fi w] by blast
  show ?thesis
  proof (cases r)
    case (Inl e)
    then show ?thesis using r f(2) by simp
  next
    case (Inr follow)
    then have "\<forall>k. set (m_get follow k) \<subseteq> insert endMarker (allTokens g)"
      and "\<exists>m0. followPass g first m0 = Inr (follow, False)"
      using r(2) by (simp_all add: within_def sets_of_def U_def)
    then show ?thesis using f(1,3,5) r(1) Inr by (auto simp: computeFollowSets_def)
  qed
qed

text \<open>
  C9. Both fixed-point loops terminate, for every grammar. A loop runs a full pass and
  goes on exactly when the pass set \<open>changed\<close>; a pass only adds members to the sets and
  sets \<open>changed\<close> exactly when some set became larger: so a loop stops on the first pass
  in which no set changes, and its result is the outcome of such a pass. The FIRST sets
  lie inside the tokens of the grammar and epsilon, and the FOLLOW sets computed from
  them inside the tokens of the grammar and the end marker. The FOLLOW solver on its
  own terminates for every FIRST map \<open>first0\<close> and start symbol, with sets inside the
  tokens of the grammar, the members of the given FIRST sets and the end marker; it
  ends with \<open>out_of_range\<close> only when the FIRST map lacks a key of the grammar.
\<close>

theorem fixed_point_loops_terminate:
  "(\<forall>m. firstLoop g m =
          (if snd (firstPass g m) then firstLoop g (fst (firstPass g m))
           else Some (fst (firstPass g m)))) \<and>
   (\<forall>m. (\<forall>k. set (m_get m k) \<subseteq> set (m_get (fst (firstPass g m)) k)) \<and>
        (snd (firstPass g m) \<longleftrightarrow>
           (\<exists>k. set (m_get (fst (firstPass g m)) k) \<noteq> set (m_get m k)))) \<and>
   (\<forall>m. followLoop g first0 m =
          (case followPass g first0 m of
             Inl e \<Rightarrow> Some (Inl e)
           | Inr st \<Rightarrow> if snd st then followLoop g first0 (fst st) else Some (Inr (fst st)))) \<and>
   (\<forall>m. case followPass g first0 m of
           Inl e \<Rightarrow> \<not> keysCovered g first0
         | Inr st \<Rightarrow>
             (\<forall>k. set (m_get m k) \<subseteq> set (m_get (fst st) k)) \<and>
             (snd st \<longleftrightarrow> (\<exists>k. set (m_get (fst st) k) \<noteq> set (m_get m k)))) \<and>
   (\<exists>first. firstSet g = Some first \<and> (\<exists>m0. firstPass g m0 = (first, False)) \<and>
      (\<forall>k. set (m_get first k) \<subseteq> insert epsilon (allTokens g)) \<and>
      (\<exists>follow. computeFollowSets g first startSymbol = Some (Inr follow) \<and>
         (\<exists>m0. followPass g first m0 = Inr (follow, False)) \<and>
         (\<forall>k. set (m_get follow k) \<subseteq> insert endMarker (allTokens g)))) \<and>
   (\<exists>r. computeFollowSets g first0 startSymbol = Some r \<and>
      (case r of
         Inl e \<Rightarrow> \<not> keysCovered g first0
       | Inr follow \<Rightarrow>
           (\<exists>m0. followPass g first0 m0 = Inr (follow, False)) \<and>
           (\<forall>k. set (m_get follow k) \<subseteq>
              insert endMarker (allTokens g) \<union> \<Union> (set ` snd ` set first0))))"
proof (intro conjI)
  show "\<forall>m. firstLoop g m =
          (if snd (firstPass g m) then firstLoop g (fst (firstPass g m))
           else Some (fst (firstPass g m)))"
  proof
    fix m
    show "firstLoop g m =
          (if snd (firstPass g m) then firstLoop g (fst (firstPass g m))
           else Some (fst (firstPass g m)))"
      by (subst firstLoop.simps) (simp add: split_beta)
  qed
  show "\<forall>m. (\<forall>k. set (m_get m k) \<subseteq> set (m_get (fst (firstPass g m)) k)) \<and>
        (snd (firstPass g m) \<longleftrightarrow>
           (\<exists>k. set (m_get (fst (firstPass g m)) k) \<noteq> set (m_get m k)))"
    using firstPass_monotone by blast
  show "\<forall>m. followLoop g first0 m =
          (case followPass g first0 m of
             Inl e \<Rightarrow> Some (Inl e)
           | Inr st \<Rightarrow> if snd st then followLoop g first0 (fst st) else Some (Inr (fst st)))"
  proof
    fix m
    show "followLoop g first0 m =
          (case followPass g first0 m of
             Inl e \<Rightarrow> Some (Inl e)
           | Inr st \<Rightarrow> if snd st then followLoop g first0 (fst st) else Some (Inr (fst st)))"
      by (subst followLoop.simps) (simp add: split_beta split: sum.splits)
  qed
  show "\<forall>m. case followPass g first0 m of
           Inl e \<Rightarrow> \<not> keysCovered g first0
         | Inr st \<Rightarrow>
             (\<forall>k. set (m_get m k) \<subseteq> set (m_get (fst st) k)) \<and>
             (snd st \<longleftrightarrow> (\<exists>k. set (m_get (fst st) k) \<noteq> set (m_get m k)))"
    using followPass_monotone by blast
  show "\<exists>first. firstSet g = Some first \<and> (\<exists>m0. firstPass g m0 = (first, False)) \<and>
      (\<forall>k. set (m_get first k) \<subseteq> insert epsilon (allTokens g)) \<and>
      (\<exists>follow. computeFollowSets g first startSymbol = Some (Inr follow) \<and>
         (\<exists>m0. followPass g first m0 = Inr (follow, False)) \<and>
         (\<forall>k. set (m_get follow k) \<subseteq> insert endMarker (allTokens g)))"
    by (rule pipeline_sets_total)
  obtain r where r: "computeFollowSets g first0 startSymbol = Some r"
     "(case r of
        Inl e \<Rightarrow> \<not> keysCovered g first0
      | Inr follow \<Rightarrow>
          (\<forall>k. set (m_get (initFollow g startSymbol) k) \<subseteq> set (m_get follow k)) \<and>
          (\<forall>k. set (m_get follow k) \<subseteq> insert endMarker (allTokens g) \<union> \<Union> (set ` snd ` set first0)) \<and>
          (\<exists>m0. followPass g first0 m0 = Inr (follow, False)))"
    using computeFollowSets_total [of g first0 startSymbol] by blast
  show "\<exists>r. computeFollowSets g first0 startSymbol = Some r \<and>
      (case r of
         Inl e \<Rightarrow> \<not> keysCovered g first0
       | Inr follow \<Rightarrow>
           (\<exists>m0. followPass g first0 m0 = Inr (follow, False)) \<and>
           (\<forall>k. set (m_get follow k) \<subseteq>
              insert endMarker (allTokens g) \<union> \<Union> (set ` snd ` set first0)))"
    using r by (cases r) auto
qed

text \<open>
  C8. The FOLLOW solver always returns. When it returns a map (it ends with
  \<open>out_of_range\<close> only if the FIRST map lacks a key of the grammar), the end marker is a
  member of FOLLOW of the start symbol: it is a member at initialisation, and every set
  of the result contains the set it was initialised with.
\<close>

theorem endMarker_in_follow_of_start:
  "(case computeFollowSets g first startSymbol of
      None \<Rightarrow> False
    | Some (Inl e) \<Rightarrow> \<not> keysCovered g first
    | Some (Inr follow) \<Rightarrow>
        endMarker \<in> set (m_get (initFollow g startSymbol) startSymbol) \<and>
        (\<forall>k. set (m_get (initFollow g startSymbol) k) \<subseteq> set (m_get follow k)) \<and>
        endMarker \<in> set (m_get follow startSymbol))"
proof -
  obtain r where r: "computeFollowSets g first startSymbol = Some r"
     "(case r of
        Inl e \<Rightarrow> \<not> keysCovered g first
      | Inr follow \<Rightarrow>
          (\<forall>k. set (m_get (initFollow g startSymbol) k) \<subseteq> set (m_get follow k)) \<and>
          (\<forall>k. set (m_get follow k) \<subseteq> insert endMarker (allTokens g) \<union> \<Union> (set ` snd ` set first)) \<and>
          (\<exists>m0. followPass g first m0 = Inr (follow, False)))"
    using computeFollowSets_total [of g first startSymbol] by blast
  have i: "endMarker \<in> set (m_get (initFollow g startSymbol) startSymbol)"
    using sets_of_initFollow [of g startSymbol startSymbol] by (simp add: sets_of_def)
  show ?thesis
  proof (cases r)
    case (Inl e)
    then show ?thesis using r by simp
  next
    case (Inr follow)
    then have "\<And>k. set (m_get (initFollow g startSymbol) k) \<subseteq> set (m_get follow k)"
      using r(2) by simp
    then show ?thesis using r(1) Inr i by auto
  qed
qed

section \<open>The members of the FOLLOW sets\<close>

text \<open>
  C4, the failing input. The grammar \<open>S -> A epsilon\<close>, \<open>A -> a\<close> (unchanged by the two
  transformations): the FOLLOW solver takes the epsilon token after \<open>A\<close> for a terminal
  and inserts it without the test \<open>sym != epsilon\<close> that guards its other insertions, so
  that FOLLOW of \<open>A\<close> is the set of epsilon alone.
\<close>

theorem epsilon_in_follow:
  "readGrammar [''S -> A '' @ epsilon, ''A -> a''] =
     ([(''A'', [''a'']), (''S'', [''A '' @ epsilon])], ''S'') \<and>
   finalGrammar [(''A'', [''a'']), (''S'', [''A '' @ epsilon])] =
     [(''A'', [''a'']), (''S'', [''A '' @ epsilon])] \<and>
   firstSet [(''A'', [''a'']), (''S'', [''A '' @ epsilon])] =
     Some [(''A'', [''a'']), (''S'', [''a''])] \<and>
   computeFollowSets [(''A'', [''a'']), (''S'', [''A '' @ epsilon])]
       [(''A'', [''a'']), (''S'', [''a''])] ''S'' =
     Some (Inr [(''A'', [epsilon]), (''S'', [endMarker])])"
  by code_simp

lemma epsilonNotAfterNT_followersIn:
  assumes "epsilonNotAfterNT g"
  shows "followersIn g (insert endMarker (allTokens g) \<inter> {x. x = endMarker \<or> (\<not> m_has g x \<and> x \<noteq> epsilon)})"
  unfolding followersIn_def
proof (intro ballI impI)
  fix rule p t
  assume r: "rule \<in> set g" and p: "p \<in> set (snd rule)" and t: "t \<in> afterNT g (tokensOf p)"
    and nk: "\<not> m_has g t"
  have "epsilon \<notin> afterNT g (tokensOf p)"
    using assms r p by (simp add: epsilonNotAfterNT_def list_all_iff)
  then have "t \<noteq> epsilon" using t by auto
  moreover have "t \<in> allTokens g"
    using r p t afterNT_subset [of g "tokensOf p"] unfolding allTokens_def by blast
  ultimately show "t \<in> insert endMarker (allTokens g) \<inter> {x. x = endMarker \<or> (\<not> m_has g x \<and> x \<noteq> epsilon)}"
    using nk by simp
qed

text \<open>
  This is the only way of epsilon into a FOLLOW set. For a grammar in which the epsilon
  token never stands after a non-terminal in a production, and the FIRST sets of the FIRST
  solver, the FOLLOW solver returns a map, and every member of every FOLLOW set is the end
  marker or a token of the grammar that is neither a grammar key nor epsilon.
\<close>

lemma follow_terminals_unless_epsilon_follows:
  assumes "epsilonNotAfterNT g"
  shows "\<exists>first follow. firstSet g = Some first \<and>
     computeFollowSets g first startSymbol = Some (Inr follow) \<and>
     (\<forall>k. \<forall>x\<in>set (m_get follow k).
        x = endMarker \<or> (x \<in> allTokens g \<and> \<not> m_has g x \<and> x \<noteq> epsilon))"
proof -
  define U where "U = insert endMarker (allTokens g) \<inter> {x. x = endMarker \<or> (\<not> m_has g x \<and> x \<noteq> epsilon)}"
  obtain first where f: "firstSet g = Some first" "keysCovered g first"
      "firstIn first (allTokens g \<inter> {x. \<not> m_has g x \<and> x \<noteq> epsilon})"
    using firstSet_covers [of g] by blast
  have fin: "finite U" by (simp add: U_def finite_allTokens)
  have fo: "followersIn g U"
    unfolding U_def by (rule epsilonNotAfterNT_followersIn [OF assms])
  have fi: "firstIn first U"
    using f(3) unfolding firstIn_def U_def by blast
  have w: "within U (initFollow g startSymbol)"
    by (simp add: within_def sets_of_initFollow U_def)
  obtain r where r: "followLoop g first (initFollow g startSymbol) = Some r"
     "(case r of
          Inl e \<Rightarrow> \<not> keysCovered g first
        | Inr f \<Rightarrow> within U f \<and> (\<forall>k. sets_of (initFollow g startSymbol) k \<subseteq> sets_of f k) \<and>
            set (map fst (initFollow g startSymbol)) \<subseteq> set (map fst f) \<and>
            (\<exists>m0. followPass g first m0 = Inr (f, False)))"
    using followLoop_total [OF fin fo fi w] by blast
  show ?thesis
  proof (cases r)
    case (Inl e)
    then show ?thesis using r f(2) by simp
  next
    case (Inr follow)
    then have "within U follow" using r(2) by simp
    then have "\<forall>k. \<forall>x\<in>set (m_get follow k).
        x = endMarker \<or> (x \<in> allTokens g \<and> \<not> m_has g x \<and> x \<noteq> epsilon)"
      unfolding within_def sets_of_def U_def by blast
    then show ?thesis using f(1) r(1) Inr by (auto simp: computeFollowSets_def)
  qed
qed

section \<open>The table builder\<close>

lemma lastOption_Cons:
  "lastOption (x # xs) = (case lastOption xs of None \<Rightarrow> Some x | Some y \<Rightarrow> Some y)"
  by (simp add: lastOption_def)

lemma lastOption_append:
  "lastOption (xs @ ys) = (case lastOption ys of None \<Rightarrow> lastOption xs | Some y \<Rightarrow> Some y)"
  by (simp add: lastOption_def)

lemma prodsOf_distinct: "distinct (map fst g) \<Longrightarrow> prodsOf g A = m_get g A"
proof (induction g)
  case Nil
  then show ?case by (simp add: prodsOf_def m_get_def)
next
  case (Cons rule g)
  show ?case
  proof (cases "fst rule = A")
    case True
    then have "A \<notin> fst ` set g" using Cons.prems by auto
    then have "filter (\<lambda>rule. fst rule = A) g = []"
      by (auto simp: filter_empty_conv)
    then show ?thesis using True by (cases rule) (simp add: prodsOf_def m_get_def)
  next
    case False
    then show ?thesis using Cons by (cases rule) (simp add: prodsOf_def m_get_def)
  qed
qed

lemma cell_setCell:
  "cell (setCell A p x T) B y = (if B = A \<and> y = x then Some p else cell T B y)"
  by (simp add: cell_def setCell_def m_get_m_put map_of_m_put)

lemma cell_fold_setCell:
  "cell (fold (setCell A p) xs T) B y = (if B = A \<and> y \<in> set xs then Some p else cell T B y)"
  by (induction xs arbitrary: T) (auto simp: cell_setCell)

lemma cell_fold_setCell_noeps:
  "cell (fold (\<lambda>terminal t. if terminal \<noteq> epsilon then setCell A p terminal t else t) xs T) B y =
     (if B = A \<and> y \<in> set xs \<and> y \<noteq> epsilon then Some p else cell T B y)"
  by (induction xs arbitrary: T) (auto simp: cell_setCell)

lemma cell_tableProd:
  assumes "tableProd g fs fo A p T = Inr T'"
  shows "cell T' B y = (if B = A \<and> claimsCell g fs fo A p y then Some p else cell T B y)"
proof (cases "computeFirstOfString (tokensOf p) fs g")
  case (Inl e)
  then show ?thesis using assms by (simp add: tableProd_def tokensOf_def)
next
  case (Inr fa)
  then have "T' = (let t1 = fold (\<lambda>terminal t. if terminal \<noteq> epsilon then setCell A p terminal t else t) fa T
       in if epsilon \<in> set fa then fold (setCell A p) (m_get fo A) t1 else t1)"
    using assms by (auto simp: tableProd_def tokensOf_def Let_def)
  then show ?thesis
    using Inr by (auto simp: Let_def claimsCell_def cell_fold_setCell cell_fold_setCell_noeps)
qed

lemma firstOfScan_ok:
  "keysCovered g fs \<Longrightarrow> \<exists>fa. firstOfScan tokens fs g res = Inr fa"
proof (induction tokens arbitrary: res)
  case Nil
  then show ?case by simp
next
  case (Cons token tokens)
  show ?case
  proof (cases "m_has g token")
    case False
    then show ?thesis by simp
  next
    case True
    then have "m_has fs token" using Cons.prems by (auto simp: keysCovered_def m_has_def)
    then obtain ft where "m_at fs token = Inr ft"
      using m_at_Inl [of fs token] by (cases "m_at fs token") auto
    then show ?thesis using True Cons by (simp add: Let_def)
  qed
qed

lemma tableProd_ok:
  "keysCovered g fs \<Longrightarrow> \<exists>T'. tableProd g fs fo A p T = Inr T'"
  using firstOfScan_ok [of g fs "split p CHR '' ''" "[]"]
  by (auto simp: tableProd_def computeFirstOfString_def Let_def)

lemma tableProds_cells:
  assumes "keysCovered g fs"
  shows "\<exists>T'. tableProds g fs fo A prods T = Inr T' \<and>
     (\<forall>B y. cell T' B y =
        (if B = A
         then (case lastOption (filter (\<lambda>p. claimsCell g fs fo A p y) prods) of
                 None \<Rightarrow> cell T B y | Some p \<Rightarrow> Some p)
         else cell T B y))"
proof (induction prods arbitrary: T)
  case Nil
  then show ?case by (simp add: lastOption_def)
next
  case (Cons p prods)
  obtain T1 where T1: "tableProd g fs fo A p T = Inr T1"
    using tableProd_ok [OF assms] by blast
  obtain T' where T': "tableProds g fs fo A prods T1 = Inr T'"
    and c: "\<And>B y. cell T' B y =
        (if B = A
         then (case lastOption (filter (\<lambda>p. claimsCell g fs fo A p y) prods) of
                 None \<Rightarrow> cell T1 B y | Some p \<Rightarrow> Some p)
         else cell T1 B y)"
    using Cons [of T1] by blast
  have "tableProds g fs fo A (p # prods) T = Inr T'"
    using T1 T' by simp
  moreover have "\<forall>B y. cell T' B y =
        (if B = A
         then (case lastOption (filter (\<lambda>p. claimsCell g fs fo A p y) (p # prods)) of
                 None \<Rightarrow> cell T B y | Some p \<Rightarrow> Some p)
         else cell T B y)"
    unfolding c cell_tableProd [OF T1]
    by (simp add: lastOption_Cons split: option.splits)
  ultimately show ?case by blast
qed

lemma prodsOf_finalGrammar: "prodsOf (finalGrammar g) A = m_get (finalGrammar g) A"
  using ordered_finalGrammar [of g]
  by (intro prodsOf_distinct) (simp add: ordered_def strict_sorted_iff)

lemma prodsOf_Cons:
  "prodsOf (rule # rules) B = (if fst rule = B then snd rule else []) @ prodsOf rules B"
  by (simp add: prodsOf_def)

lemma tableRules_cells:
  assumes "keysCovered g fs"
  shows "\<exists>T'. tableRules g fs fo rules T = Inr T' \<and>
     (\<forall>B y. cell T' B y =
        (case lastOption (filter (\<lambda>p. claimsCell g fs fo B p y) (prodsOf rules B)) of
           None \<Rightarrow> cell T B y | Some p \<Rightarrow> Some p))"
proof (induction rules arbitrary: T)
  case Nil
  then show ?case by (simp add: lastOption_def prodsOf_def)
next
  case (Cons rule rules)
  obtain T1 where T1: "tableProds g fs fo (fst rule) (snd rule) T = Inr T1"
    and c1: "\<And>B y. cell T1 B y =
        (if B = fst rule
         then (case lastOption (filter (\<lambda>p. claimsCell g fs fo (fst rule) p y) (snd rule)) of
                 None \<Rightarrow> cell T B y | Some p \<Rightarrow> Some p)
         else cell T B y)"
    using tableProds_cells [OF assms, of fo "fst rule" "snd rule" T] by blast
  obtain T' where T': "tableRules g fs fo rules T1 = Inr T'"
    and c: "\<And>B y. cell T' B y =
        (case lastOption (filter (\<lambda>p. claimsCell g fs fo B p y) (prodsOf rules B)) of
           None \<Rightarrow> cell T1 B y | Some p \<Rightarrow> Some p)"
    using Cons [of T1] by blast
  have "tableRules g fs fo (rule # rules) T = Inr T'"
    using T1 T' by simp
  moreover have "\<forall>B y. cell T' B y =
        (case lastOption (filter (\<lambda>p. claimsCell g fs fo B p y) (prodsOf (rule # rules) B)) of
           None \<Rightarrow> cell T B y | Some p \<Rightarrow> Some p)"
    unfolding c c1 prodsOf_Cons
    by (simp add: lastOption_append lastOption_def split: option.splits)
  ultimately show ?case by blast
qed

text \<open>
  The cells of the table for any FIRST map that has an entry for every key of the grammar.
\<close>

lemma table_cells:
  assumes "keysCovered g first"
  shows "(\<forall>A p T. \<exists>T'. tableProd g first follow A p T = Inr T' \<and>
            (\<forall>B t. cell T' B t =
               (if B = A \<and> claimsCell g first follow A p t then Some p else cell T B t))) \<and>
         (\<exists>T. buildTable g first follow = Inr T \<and>
            (\<forall>A t. cell T A t =
               lastOption (filter (\<lambda>p. claimsCell g first follow A p t) (prodsOf g A))))"
proof
  show "\<forall>A p T. \<exists>T'. tableProd g first follow A p T = Inr T' \<and>
            (\<forall>B t. cell T' B t =
               (if B = A \<and> claimsCell g first follow A p t then Some p else cell T B t))"
    using tableProd_ok [OF assms] cell_tableProd by metis
next
  obtain T where T: "tableRules g first follow g [] = Inr T"
    and c: "\<And>B y. cell T B y =
        (case lastOption (filter (\<lambda>p. claimsCell g first follow B p y) (prodsOf g B)) of
           None \<Rightarrow> cell [] B y | Some p \<Rightarrow> Some p)"
    using tableRules_cells [OF assms, of follow g "[]"] by blast
  have "\<forall>A t. cell T A t =
      lastOption (filter (\<lambda>p. claimsCell g first follow A p t) (prodsOf g A))"
    unfolding c by (simp add: cell_def m_get_def split: option.splits)
  then show "\<exists>T. buildTable g first follow = Inr T \<and>
            (\<forall>A t. cell T A t =
               lastOption (filter (\<lambda>p. claimsCell g first follow A p t) (prodsOf g A)))"
    using T by (simp add: buildTable_def)
qed

text \<open>
  The FIRST set that \<open>computeFirstOfString\<close> returns is FIRST of the sequence as the
  specification words it, when the epsilon token is not a grammar key and the FIRST map
  has an entry for every key.
\<close>

lemma set_fold_insert_noeps:
  "set (fold (\<lambda>sym r. if sym \<noteq> epsilon then fst (s_insert sym r) else r) xs res) =
     set res \<union> (set xs - {epsilon})"
  by (induction xs arbitrary: res) (auto simp: set_s_insert)

lemma firstOfScan_spec:
  assumes "\<not> m_has g epsilon" and "keysCovered g first"
  shows "\<exists>fa. firstOfScan tokens first g res = Inr fa \<and>
           set fa = set res \<union> specFirstOfSequence g first tokens"
proof (induction tokens arbitrary: res)
  case Nil
  then show ?case by (simp add: set_s_insert)
next
  case (Cons token tokens)
  show ?case
  proof (cases "m_has g token")
    case False
    then show ?thesis by (simp add: set_s_insert)
  next
    case True
    then have ne: "token \<noteq> epsilon" using assms(1) by auto
    have "m_has first token" using True assms(2) by (auto simp: keysCovered_def m_has_def)
    then obtain ft where ft: "m_at first token = Inr ft"
      using m_at_Inl [of first token] by (cases "m_at first token") auto
    then have "map_of first token = Some ft" by (simp add: m_at_Inr)
    then have s: "set (m_get first token) = set ft" by (simp add: m_get_def)
    define res' where "res' = fold (\<lambda>sym r. if sym \<noteq> epsilon then fst (s_insert sym r) else r) ft res"
    have r: "set res' = set res \<union> (set ft - {epsilon})"
      unfolding res'_def by (rule set_fold_insert_noeps)
    show ?thesis
    proof (cases "epsilon \<in> set ft")
      case False
      then show ?thesis using True ne ft s r by (simp add: res'_def [symmetric])
    next
      case eps: True
      obtain fa where "firstOfScan tokens first g res' = Inr fa"
          "set fa = set res' \<union> specFirstOfSequence g first tokens"
        using Cons [of res'] by blast
      then show ?thesis using True ne ft s r eps by (auto simp: res'_def [symmetric])
    qed
  qed
qed

lemma computeFirstOfString_spec:
  assumes "\<not> m_has g epsilon" and "keysCovered g first"
  shows "\<exists>fa. computeFirstOfString tokens first g = Inr fa \<and>
           set fa = specFirstOfSequence g first tokens"
  using firstOfScan_spec [OF assms, of tokens "[]"] by (simp add: computeFirstOfString_def)

lemma claimsCell_spec:
  assumes "\<not> m_has g epsilon" and "keysCovered g first"
  shows "claimsCell g first follow A p t = specClaimsCell g first follow A p t"
proof -
  obtain fa where "computeFirstOfString (tokensOf p) first g = Inr fa"
      "set fa = specFirstOfSequence g first (tokensOf p)"
    using computeFirstOfString_spec [OF assms] by blast
  then show ?thesis by (simp add: claimsCell_def specClaimsCell_def)
qed

text \<open>
  The two transformations create no key that is the epsilon token: the final grammar of
  a grammar without this key has no such key.
\<close>

lemma fresh_not_epsilon: "N @ apostrophe @ s \<noteq> epsilon"
proof
  assume e: "N @ apostrophe @ s = epsilon"
  have "CHR 0x27 \<in> set (N @ apostrophe @ s)" by (simp add: apostrophe_def)
  then have "CHR 0x27 \<in> set epsilon" unfolding e .
  then show False by (simp add: epsilon_def)
qed

lemma keys_leftFactor:
  assumes "m_has (fst (leftFactor N prods G c)) k"
  shows "k = N \<or> m_has G k \<or> (\<exists>s. k = N @ apostrophe @ s)"
proof (cases "factors prods")
  case True
  show ?thesis
    using assms unfolding leftFactor_factors [OF True] Let_def fst_conv m_has_m_put by blast
next
  case False
  show ?thesis
    using assms unfolding leftFactor_copies [OF False] fst_conv m_has_m_put by blast
qed

lemma no_epsilon_key_leftFactor:
  assumes "\<not> m_has G epsilon" and "N \<noteq> epsilon"
  shows "\<not> m_has (fst (leftFactor N prods G c)) epsilon"
  using assms keys_leftFactor [of N prods G c epsilon] fresh_not_epsilon [of N] by metis

lemma no_epsilon_key_factorFrom:
  "\<not> m_has (fst st) epsilon \<Longrightarrow> \<forall>rule\<in>set g. fst rule \<noteq> epsilon \<Longrightarrow>
     \<not> m_has (fst (factorFrom g st)) epsilon"
  unfolding factorFrom_def
proof (induction g arbitrary: st)
  case Nil
  then show ?case by simp
next
  case (Cons rule g)
  have "\<not> m_has (fst (factorStep rule st)) epsilon"
    using Cons.prems by (simp add: factorStep_def no_epsilon_key_leftFactor)
  then show ?case using Cons.IH Cons.prems(2) by simp
qed

lemma keys_leftRecursion:
  assumes "m_has (leftRecursion N prods G) k"
  shows "k = N \<or> m_has G k \<or> k = N @ apostrophe"
proof -
  obtain rs ns where part: "partitionProds N prods = (rs, ns)"
    by (cases "partitionProds N prods")
  show ?thesis
    using assms part by (cases "rs = []") (simp_all add: leftRecursion_def Let_def m_has_m_put, blast+)
qed

lemma no_epsilon_key_leftRecursion:
  assumes "\<not> m_has G epsilon" and "N \<noteq> epsilon"
  shows "\<not> m_has (leftRecursion N prods G) epsilon"
  using assms keys_leftRecursion [of N prods G epsilon] epsilon_not_fresh [of N] by metis

lemma no_epsilon_key_fold:
  "\<not> m_has G epsilon \<Longrightarrow> \<forall>rule\<in>set F. fst rule \<noteq> epsilon \<Longrightarrow>
     \<not> m_has (fold (\<lambda>rule newGrammar. leftRecursion (fst rule) (snd rule) newGrammar) F G) epsilon"
  by (induction F arbitrary: G) (simp_all add: no_epsilon_key_leftRecursion)

lemma no_epsilon_key_finalGrammar:
  assumes "\<not> m_has g epsilon"
  shows "\<not> m_has (finalGrammar g) epsilon"
proof -
  have k: "\<forall>rule\<in>set g. fst rule \<noteq> epsilon"
    using assms by (force simp: m_has_def)
  have e: "\<not> m_has ([] :: grammar) epsilon"
    by (simp add: m_has_def)
  have f: "\<not> m_has (factoredGrammar g) epsilon"
    unfolding factoredGrammar_def
    using no_epsilon_key_factorFrom [of "([], 1)" g] e k by simp
  have "\<forall>rule\<in>set (factoredGrammar g). fst rule \<noteq> epsilon"
    using f by (force simp: m_has_def)
  then show ?thesis
    unfolding finalGrammar_def by (rule no_epsilon_key_fold [OF e])
qed

text \<open>
  C2. Let the epsilon token be no key of the grammar (it is a symbol kind of its own in
  the specification, and the final grammar of such a grammar is such a grammar). With the
  FIRST map of the FIRST solver and any FOLLOW map: the FIRST set that the table builder
  computes for the tokens of a production is FIRST of this sequence as the specification
  words it. Processing production \<open>p\<close> of \<open>A\<close> never fails and sets the cell \<open>(A, t)\<close>
  to \<open>p\<close> for exactly the \<open>t\<close> that \<open>p\<close> claims (the members of FIRST of \<open>p\<close> other than
  epsilon, and the members of FOLLOW of \<open>A\<close> if epsilon is in FIRST of \<open>p\<close>), leaving
  every other cell as it was. The whole table is built without an error, and each of its
  cells holds the last production, in processing order, that claims it (no production
  when none does): a later claim overwrites an earlier one.
\<close>

theorem table_last_claim_wins:
  assumes "\<not> m_has g epsilon"
  shows "\<exists>first. firstSet g = Some first \<and>
     (\<forall>tokens. \<exists>firstAlpha. computeFirstOfString tokens first g = Inr firstAlpha \<and>
        set firstAlpha = specFirstOfSequence g first tokens) \<and>
     (\<forall>follow.
        (\<forall>A p T. \<exists>T'. tableProd g first follow A p T = Inr T' \<and>
           (\<forall>B t. cell T' B t =
              (if B = A \<and> specClaimsCell g first follow A p t then Some p else cell T B t))) \<and>
        (\<exists>T. buildTable g first follow = Inr T \<and>
           (\<forall>A t. cell T A t =
              lastOption (filter (\<lambda>p. specClaimsCell g first follow A p t) (prodsOf g A)))))"
proof -
  obtain first where f: "firstSet g = Some first" "keysCovered g first"
    using firstSet_covers [of g] by blast
  have c: "\<And>follow A p t. claimsCell g first follow A p t = specClaimsCell g first follow A p t"
    by (rule claimsCell_spec [OF assms f(2)])
  have 1: "\<forall>tokens. \<exists>firstAlpha. computeFirstOfString tokens first g = Inr firstAlpha \<and>
        set firstAlpha = specFirstOfSequence g first tokens"
    using computeFirstOfString_spec [OF assms f(2)] by blast
  have 2: "(\<forall>A p T. \<exists>T'. tableProd g first follow A p T = Inr T' \<and>
           (\<forall>B t. cell T' B t =
              (if B = A \<and> specClaimsCell g first follow A p t then Some p else cell T B t))) \<and>
        (\<exists>T. buildTable g first follow = Inr T \<and>
           (\<forall>A t. cell T A t =
              lastOption (filter (\<lambda>p. specClaimsCell g first follow A p t) (prodsOf g A))))"
    for follow
    using table_cells [OF f(2), of follow] unfolding c .
  show ?thesis
    using f(1) 1 2 by blast
qed

theorem table_last_claim_wins_witness:
  "\<not> m_has [(''A'', [''a b'', ''a c'', epsilon])] epsilon \<and>
   (\<exists>T. buildTable [(''A'', [''a b'', ''a c'', epsilon])] [(''A'', [''a'', epsilon])]
          [(''A'', [endMarker])] = Inr T \<and>
       cell T ''A'' ''a'' = Some ''a c'' \<and> cell T ''A'' endMarker = Some epsilon \<and>
       cell T ''A'' ''b'' = None)"
proof -
  have h: "\<not> m_has [(''A'', [''a b'', ''a c'', epsilon])] epsilon"
    by code_simp
  have f: "firstSet [(''A'', [''a b'', ''a c'', epsilon])] = Some [(''A'', [''a'', epsilon])]"
    by code_simp
  have a: "lastOption (filter (\<lambda>p. specClaimsCell [(''A'', [''a b'', ''a c'', epsilon])]
              [(''A'', [''a'', epsilon])] [(''A'', [endMarker])] ''A'' p ''a'')
              (prodsOf [(''A'', [''a b'', ''a c'', epsilon])] ''A'')) =
           Some ''a c''"
    by code_simp
  have b: "lastOption (filter (\<lambda>p. specClaimsCell [(''A'', [''a b'', ''a c'', epsilon])]
              [(''A'', [''a'', epsilon])] [(''A'', [endMarker])] ''A'' p endMarker)
              (prodsOf [(''A'', [''a b'', ''a c'', epsilon])] ''A'')) =
           Some epsilon"
    by code_simp
  have c: "lastOption (filter (\<lambda>p. specClaimsCell [(''A'', [''a b'', ''a c'', epsilon])]
              [(''A'', [''a'', epsilon])] [(''A'', [endMarker])] ''A'' p ''b'')
              (prodsOf [(''A'', [''a b'', ''a c'', epsilon])] ''A'')) =
           None"
    by code_simp
  obtain first where "firstSet [(''A'', [''a b'', ''a c'', epsilon])] = Some first"
    and t: "\<And>follow. \<exists>T. buildTable [(''A'', [''a b'', ''a c'', epsilon])] first follow = Inr T \<and>
           (\<forall>A t. cell T A t =
              lastOption (filter (\<lambda>p. specClaimsCell [(''A'', [''a b'', ''a c'', epsilon])] first follow A p t)
                (prodsOf [(''A'', [''a b'', ''a c'', epsilon])] A)))"
    using table_last_claim_wins [OF h] by blast
  then have "first = [(''A'', [''a'', epsilon])]" using f by simp
  then show ?thesis
    using h t [of "[(''A'', [endMarker])]"] a b c by auto
qed

section \<open>Epsilon productions\<close>

lemma grows_reaches:
  assumes step: "\<And>x st. x \<in> set xs \<Longrightarrow> grows UNIV K st (f x st)"
    and y: "y \<in> set xs"
    and hit: "\<And>st. e \<in> sets_of (fst (f y st)) k"
  shows "e \<in> sets_of (fst (fold f xs st)) k"
proof -
  obtain pre post where xs: "xs = pre @ y # post"
    using y by (auto dest: split_list)
  define st1 where "st1 = f y (fold f pre st)"
  have "grows UNIV K st1 (fold f post st1)"
    by (rule grows_fold) (simp_all add: step xs within_def)
  then have "sets_of (fst st1) k \<subseteq> sets_of (fst (fold f post st1)) k"
    by (simp add: grows_def)
  moreover have "e \<in> sets_of (fst st1) k"
    unfolding st1_def by (rule hit)
  moreover have "fold f xs st = fold f post st1"
    by (simp add: xs st1_def)
  ultimately show ?thesis by auto
qed

lemma firstProd_epsilon:
  "tokensOf p = [epsilon] \<Longrightarrow> epsilon \<in> sets_of (fst (firstProd g A p st)) A"
  by (simp add: firstProd_def tokensOf_def sets_of_s_add)

lemma firstRule_epsilon:
  assumes "p \<in> set (snd rule)" and "tokensOf p = [epsilon]"
  shows "epsilon \<in> sets_of (fst (firstRule g rule st)) (fst rule)"
  unfolding firstRule_def
proof (rule grows_reaches [OF _ assms(1)])
  fix x and st :: "sset smap \<times> bool"
  show "grows UNIV {fst rule} st (firstProd g (fst rule) x st)"
    by (rule grows_firstProd) (simp_all add: within_def)
  show "epsilon \<in> sets_of (fst (firstProd g (fst rule) p st)) (fst rule)"
    by (rule firstProd_epsilon [OF assms(2)])
qed

lemma firstPass_epsilon:
  assumes "rule \<in> set g" and "p \<in> set (snd rule)" and "tokensOf p = [epsilon]"
  shows "epsilon \<in> sets_of (fst (firstPass g m)) (fst rule)"
proof -
  have 1: "\<And>x st. x \<in> set g \<Longrightarrow> grows UNIV (set (map fst g)) st (firstRule g x st)"
    by (intro grows_firstRule) (simp_all add: within_def terminalsIn_def)
  have 2: "\<And>st. epsilon \<in> sets_of (fst (firstRule g rule st)) (fst rule)"
    by (rule firstRule_epsilon [OF assms(2,3)])
  show ?thesis
    unfolding firstPass_def
    by (rule grows_reaches [where f = "firstRule g" and xs = g and y = rule, OF 1 assms(1) 2])
qed

lemma computeFirstOfString_epsilon:
  "\<not> m_has g epsilon \<Longrightarrow> computeFirstOfString [epsilon] first g = Inr [epsilon]"
  by (simp add: computeFirstOfString_def s_insert_def)

text \<open>
  Where the hypothesis of the two theorems on the table is needed. In the specification
  Epsilon is a symbol kind of its own and no non-terminal name; the strings of the source
  allow a grammar file in which the epsilon token is a key, as \<open>A -> epsilon\<close>,
  \<open>epsilon -> a\<close>. There \<open>firstSet\<close> tests for the epsilon token first, while
  \<open>computeFirstOfString\<close> classifies it by the keys and takes the production of \<open>A\<close> for
  a non-terminal whose FIRST set is \<open>{a}\<close>: the table builder sets the cell \<open>(A, a)\<close> and
  not the cell of the end marker, the member of FOLLOW of \<open>A\<close>.
\<close>

lemma epsilon_as_key:
  "readGrammar [''A -> '' @ epsilon, epsilon @ '' -> a''] =
     ([(''A'', [epsilon]), (epsilon, [''a''])], ''A'') \<and>
   pipeline [(''A'', [epsilon]), (epsilon, [''a''])] ''A'' =
     Some (Inr \<lparr>
       factored = [(''A'', [epsilon]), (epsilon, [''a''])],
       final = [(''A'', [epsilon]), (epsilon, [''a''])],
       firstSets = [(''A'', [epsilon]), (epsilon, [''a''])],
       followSets = [(''A'', [endMarker]), (epsilon, [endMarker])],
       parsingTable = [(''A'', [(''a'', epsilon)]), (epsilon, [(''a'', ''a'')])]\<rparr>) \<and>
   cell [(''A'', [(''a'', epsilon)]), (epsilon, [(''a'', ''a'')])] ''A'' endMarker = None"
  by code_simp

text \<open>
  C7. In a grammar of the specification's data model, where Epsilon is a symbol kind of
  its own and so the epsilon token is no key of the grammar, let \<open>A\<close> have a production
  \<open>p\<close> that is the epsilon token alone. Then the FIRST solver returns a map in which
  epsilon is a member of FIRST of \<open>A\<close>; and \<open>p\<close> claims exactly the members of FOLLOW of
  \<open>A\<close>: the table builder, processing \<open>p\<close>, sets the cell \<open>(A, t)\<close> to \<open>p\<close> for every
  member \<open>t\<close> of FOLLOW of \<open>A\<close> (one entry per member) and changes no other cell,
  whatever FIRST map it is given.
\<close>

theorem epsilon_production_uses_follow:
  assumes "\<not> m_has g epsilon" and "rule \<in> set g" and "p \<in> set (snd rule)"
    and "tokensOf p = [epsilon]"
  shows "(\<exists>first. firstSet g = Some first \<and> epsilon \<in> set (m_get first (fst rule))) \<and>
         claimsCell g first0 follow (fst rule) p = (\<lambda>t. t \<in> set (m_get follow (fst rule))) \<and>
         (\<exists>T'. tableProd g first0 follow (fst rule) p T = Inr T' \<and>
            (\<forall>B t. cell T' B t =
               (if B = fst rule \<and> t \<in> set (m_get follow (fst rule)) then Some p else cell T B t)))"
proof (intro conjI)
  obtain first where f: "firstSet g = Some first"
      "\<forall>k. set (m_get (fst (firstPass g (emptySets g))) k) \<subseteq> set (m_get first k)"
    using firstSet_covers [of g] by blast
  have "epsilon \<in> set (m_get (fst (firstPass g (emptySets g))) (fst rule))"
    using firstPass_epsilon [OF assms(2,3,4)] by (simp add: sets_of_def)
  then show "\<exists>first. firstSet g = Some first \<and> epsilon \<in> set (m_get first (fst rule))"
    using f by blast
next
  show c: "claimsCell g first0 follow (fst rule) p = (\<lambda>t. t \<in> set (m_get follow (fst rule)))"
    by (auto simp: claimsCell_def assms(4) computeFirstOfString_epsilon [OF assms(1)] fun_eq_iff)
  have "tableProd g first0 follow (fst rule) p T =
      Inr (fold (setCell (fst rule) p) (m_get follow (fst rule)) T)"
    using assms(4) computeFirstOfString_epsilon [OF assms(1), of first0]
    by (simp add: tableProd_def tokensOf_def)
  then show "\<exists>T'. tableProd g first0 follow (fst rule) p T = Inr T' \<and>
            (\<forall>B t. cell T' B t =
               (if B = fst rule \<and> t \<in> set (m_get follow (fst rule)) then Some p else cell T B t))"
    by (simp add: cell_fold_setCell)
qed

theorem epsilon_production_uses_follow_witness:
  "(\<exists>first. firstSet [(''A'', [''a'', epsilon]), (''S'', [''A b''])] = Some first \<and>
       epsilon \<in> set (m_get first ''A'')) \<and>
   (\<exists>T'. tableProd [(''A'', [''a'', epsilon]), (''S'', [''A b''])] [] [(''A'', [''b'']), (''S'', [endMarker])]
            ''A'' epsilon [] = Inr T' \<and>
      cell T' ''A'' ''b'' = Some epsilon \<and> cell T' ''A'' ''a'' = None)"
proof -
  have 1: "\<not> m_has [(''A'', [''a'', epsilon]), (''S'', [''A b''])] epsilon" by code_simp
  have 2: "(''A'', [''a'', epsilon]) \<in> set [(''A'', [''a'', epsilon]), (''S'', [''A b''])]" by simp
  have 3: "epsilon \<in> set (snd (''A'', [''a'', epsilon]))" by simp
  have 4: "tokensOf epsilon = [epsilon]" by code_simp
  have 5: "m_get [(''A'', [''b'']), (''S'', [endMarker])] ''A'' = [''b'']" by code_simp
  have 6: "cell [] ''A'' ''a'' = None" by code_simp
  show ?thesis
    using epsilon_production_uses_follow [OF 1 2 3 4, of "[]" "[(''A'', [''b'']), (''S'', [endMarker])]" "[]"]
    unfolding fst_conv 5 using 6 by auto
qed

end
